theory Spec2Isabelle
  imports Main "HOL-Library.Sublist"
begin

section \<open>The tinylang parser (src/parser.cpp)\<close>

text \<open>
  A shallow embedding of the recursive-descent, precedence-climbing parser of
  \<^verbatim>\<open>src/parser.cpp\<close>. The global \<^verbatim>\<open>Lexer* input\<close> becomes an explicit
  lexer state threaded through every function; a fatal diagnostic, a C++ exception and
  an exhausted recursion budget are values of the result type.
\<close>

subsection \<open>Tokens and the token source\<close>

text \<open>
  The fields \<^verbatim>\<open>type\<close> and \<^verbatim>\<open>value\<close> of the source's \<^verbatim>\<open>Token\<close>
  (both \<^verbatim>\<open>std::string\<close>).
\<close>

record token =
  ttype :: string
  tvalue :: string

text \<open>
  Modelled from the spec: the class \<^verbatim>\<open>Lexer\<close> (declared in the absent
  \<^verbatim>\<open>parser.h\<close>) is the external token source of spec section 6, with
  \<^verbatim>\<open>peek\<close>, \<^verbatim>\<open>next\<close>, \<^verbatim>\<open>eof\<close> and \<^verbatim>\<open>error\<close>. Its state
  is the list of tokens not yet consumed. At the end of the stream \<^verbatim>\<open>peek\<close> and
  \<^verbatim>\<open>next\<close> hand out a token whose type is the empty string: this is the case the
  parser's own guards \<^verbatim>\<open>tok.type != ""\<close> test for. \<^verbatim>\<open>error\<close> never returns
  (spec section 6): it is the result \<open>Err (Diagnostic msg)\<close>.
\<close>

type_synonym lexer = "token list"

definition null_token :: token where
  "null_token = \<lparr>ttype = [], tvalue = []\<rparr>"

definition lexer_peek :: "lexer \<Rightarrow> token" where
  "lexer_peek input = (case input of [] \<Rightarrow> null_token | t # _ \<Rightarrow> t)"

definition lexer_next :: "lexer \<Rightarrow> token \<times> lexer" where
  "lexer_next input = (case input of [] \<Rightarrow> (null_token, []) | t # ts \<Rightarrow> (t, ts))"

definition lexer_eof :: "lexer \<Rightarrow> bool" where
  "lexer_eof input = (input = [])"

subsection \<open>Results\<close>

text \<open>
  \<open>Diagnostic msg\<close> is a call of \<^verbatim>\<open>input->error(msg)\<close>. \<open>out_of_range\<close> and
  \<open>invalid_argument\<close> are the C++ exceptions of \<^verbatim>\<open>std::map::at\<close> and
  \<^verbatim>\<open>std::stoi\<close>, which do not pass through the lexer's error sink.
\<close>

datatype error = Diagnostic string | out_of_range | invalid_argument

text \<open>
  \<open>Fuel\<close> is the result of a run whose budget of nested calls and loop iterations is
  used up; it is not a result of the program.
\<close>

datatype 'a result = Ok 'a | Err error | Fuel

definition and_then :: "'a result \<Rightarrow> ('a \<Rightarrow> 'b result) \<Rightarrow> 'b result" where
  "and_then r f = (case r of Ok x \<Rightarrow> f x | Err e \<Rightarrow> Err e | Fuel \<Rightarrow> Fuel)"

definition lexer_error :: "string \<Rightarrow> 'a result" where
  "lexer_error msg = Err (Diagnostic msg)"

subsection \<open>The syntax tree\<close>

text \<open>
  Modelled from the spec: the node classes are declared in the absent
  \<^verbatim>\<open>parser.h\<close>; the constructors follow spec section 3 and the
  \<^verbatim>\<open>new\<close> expressions of the parser. An \<^verbatim>\<open>Expression*\<close> may be
  \<^verbatim>\<open>nullptr\<close>, so every child is an \<open>expr option\<close>. \<open>Program\<close> holds the
  expressions of its block (\<^verbatim>\<open>new Program(new AST(vars))\<close>). \<open>Character\<close> holds
  the code unit that the source converts to \<^verbatim>\<open>int\<close>. \<^verbatim>\<open>AST::push\<close> appends
  an expression to the sequence.
\<close>

datatype parameter = Parameter string string

datatype expr =
    Number int
  | Boolean bool
  | Character char
  | String string
  | Identifier string
  | Assign string "expr option" "expr option"
  | Binary string "expr option" "expr option"
  | If "expr option" "expr option" "expr option"
  | Closure "string list" "expr option"
  | Function string "parameter list" "expr option"
  | Call "expr option" "expr option list"
  | Program "expr option list"

type_synonym AST = "expr option list"

subsection \<open>Library functions of C++\<close>

text \<open>\<^verbatim>\<open>s[0]\<close> of a \<^verbatim>\<open>std::string\<close>: the terminating null character when
  \<open>s\<close> is empty.\<close>

definition first_char :: "string \<Rightarrow> char" where
  "first_char s = (case s of [] \<Rightarrow> CHR 0x00 | c # _ \<Rightarrow> c)"

text \<open>\<^verbatim>\<open>std::map::at\<close>: throws \<^verbatim>\<open>std::out_of_range\<close> for a missing key.\<close>

definition map_at :: "('k \<rightharpoonup> 'v) \<Rightarrow> 'k \<Rightarrow> 'v result" where
  "map_at m k = (case m k of None \<Rightarrow> Err out_of_range | Some v \<Rightarrow> Ok v)"

definition isspace :: "char \<Rightarrow> bool" where
  "isspace c = (c \<in> set [CHR '' '', CHR 0x09, CHR 0x0A, CHR 0x0B, CHR 0x0C, CHR 0x0D])"

definition isdigit :: "char \<Rightarrow> bool" where
  "isdigit c = (48 \<le> (of_char c :: nat) \<and> (of_char c :: nat) \<le> 57)"

definition digit_val :: "char \<Rightarrow> int" where
  "digit_val c = of_char c - 48"

text \<open>
  \<^verbatim>\<open>std::stoi(s)\<close> in base 10: leading white space, an optional sign, then the
  longest run of digits; \<^verbatim>\<open>std::invalid_argument\<close> when there is no digit,
  \<^verbatim>\<open>std::out_of_range\<close> when the value does not fit a 32-bit \<^verbatim>\<open>int\<close>.
\<close>

definition stoi :: "string \<Rightarrow> int result" where
  "stoi s =
     (let s1 = dropWhile isspace s;
          neg = (s1 \<noteq> [] \<and> hd s1 = CHR ''-'');
          s2 = (if s1 \<noteq> [] \<and> (hd s1 = CHR ''-'' \<or> hd s1 = CHR ''+'') then tl s1 else s1);
          ds = takeWhile isdigit s2;
          v = foldl (\<lambda>a d. 10 * a + digit_val d) 0 ds;
          r = (if neg then - v else v)
      in if ds = [] then Err invalid_argument
         else if r < - (2 ^ 31) \<or> 2 ^ 31 - 1 < r then Err out_of_range
         else Ok r)"

subsection \<open>The precedence table\<close>

definition OP_PRECEDENCE :: "string \<rightharpoonup> int" where
  "OP_PRECEDENCE = map_of
     [(''='', 1), (''||'', 2), (''&&'', 3), (''<'', 7), (''>'', 7), (''<='', 7), (''>='', 7),
      (''=='', 7), (''!='', 7), (''+'', 10), (''-'', 10), (''*'', 20), (''/'', 20), (''%'', 20)]"

subsection \<open>Predicates and consumption helpers\<close>

definition unexpected :: "lexer \<Rightarrow> 'a result" where
  "unexpected input =
     lexer_error (''Unexpected token '' @ [CHR 0x22] @ tvalue (lexer_peek input) @ [CHR 0x22])"

definition is_punc :: "char \<Rightarrow> lexer \<Rightarrow> bool" where
  "is_punc ch input =
     (let tok = lexer_peek input
      in ttype tok \<noteq> [] \<and> ttype tok = ''punc'' \<and> (ch = CHR 0x00 \<or> first_char (tvalue tok) = ch))"

definition is_kw :: "string \<Rightarrow> lexer \<Rightarrow> bool" where
  "is_kw kw input =
     (let tok = lexer_peek input
      in ttype tok \<noteq> [] \<and> ttype tok = ''kw'' \<and> (kw = [] \<or> kw = tvalue tok))"

definition is_op :: "string \<Rightarrow> lexer \<Rightarrow> bool" where
  "is_op op input =
     (let tok = lexer_peek input
      in ttype tok \<noteq> [] \<and> ttype tok = ''op'' \<and> (op = [] \<or> tvalue tok = op))"

definition skip_punc :: "char \<Rightarrow> lexer \<Rightarrow> lexer result" where
  "skip_punc ch input =
     (if is_punc ch input then Ok (snd (lexer_next input))
      else lexer_error (''Token '' @ [CHR 0x27] @ [ch] @ [CHR 0x27] @ '' expected''))"

definition skip_kw :: "string \<Rightarrow> lexer \<Rightarrow> lexer result" where
  "skip_kw kw input =
     (if is_kw kw input then Ok (snd (lexer_next input))
      else lexer_error (''Keyword '' @ [CHR 0x22] @ kw @ [CHR 0x22] @ '' expected''))"

definition skip_op :: "string \<Rightarrow> lexer \<Rightarrow> lexer result" where
  "skip_op op input =
     (if is_op op input then Ok (snd (lexer_next input))
      else lexer_error (''Operator '' @ [CHR 0x27] @ op @ [CHR 0x27] @ '' expected''))"

subsection \<open>The delimited-list parser\<close>

text \<open>
  The \<^verbatim>\<open>while\<close> loop of \<^verbatim>\<open>delimited\<close>, from its test of
  \<^verbatim>\<open>input->eof()\<close>; the state is \<^verbatim>\<open>first\<close>, \<^verbatim>\<open>list\<close> and the lexer.
  Every iteration takes one unit of the budget.
\<close>

fun delimited_loop ::
  "nat \<Rightarrow> char \<Rightarrow> char \<Rightarrow> (lexer \<Rightarrow> ('a \<times> lexer) result) \<Rightarrow> bool \<Rightarrow> 'a list \<Rightarrow> lexer
     \<Rightarrow> ('a list \<times> lexer) result" where
  "delimited_loop 0 end separator parser first list input = Fuel"
| "delimited_loop (Suc n) end separator parser first list input =
     (if lexer_eof input then Ok (list, input)
      else if is_punc end input then Ok (list, input)
      else and_then (if first then Ok input else skip_punc separator input) (\<lambda>input.
        if is_punc end input then Ok (list, input)
        else and_then (parser input) (\<lambda>(item, input).
          delimited_loop n end separator parser False (list @ [item]) input)))"

definition delimited ::
  "nat \<Rightarrow> char \<Rightarrow> char \<Rightarrow> char \<Rightarrow> (lexer \<Rightarrow> ('a \<times> lexer) result) \<Rightarrow> lexer
     \<Rightarrow> ('a list \<times> lexer) result" where
  "delimited n start end separator parser input =
     and_then (skip_punc start input) (\<lambda>input.
     and_then (delimited_loop n end separator parser True [] input) (\<lambda>(list, input).
     and_then (skip_punc end input) (\<lambda>input.
     Ok (list, input))))"

subsection \<open>Item parsers without recursion\<close>

definition parse_bool :: "lexer \<Rightarrow> (expr option \<times> lexer) result" where
  "parse_bool input =
     (let (tok, input) = lexer_next input
      in Ok (Some (Boolean (tvalue tok = ''true'')), input))"

definition parse_varname :: "lexer \<Rightarrow> (string \<times> lexer) result" where
  "parse_varname input =
     (let (name, input) = lexer_next input
      in if ttype name \<noteq> ''var'' then lexer_error ''Variable name expected''
         else Ok (tvalue name, input))"

definition parse_param :: "lexer \<Rightarrow> (parameter \<times> lexer) result" where
  "parse_param input =
     (let (typetok, input) = lexer_next input
      in if ttype typetok \<noteq> ''var'' then lexer_error ''Type name expected''
         else if ttype (lexer_peek input) = ''var'' then
           (let (nametok, input) = lexer_next input
            in if ttype nametok \<noteq> ''var'' then lexer_error ''Variable name expected''
               else Ok (Parameter (tvalue typetok) (tvalue nametok), input))
         else Ok (Parameter (tvalue typetok) [], input))"

definition parse_ext :: "nat \<Rightarrow> lexer \<Rightarrow> (expr option \<times> lexer) result" where
  "parse_ext n input =
     and_then (skip_kw ''ext'' input) (\<lambda>input.
       let (funcname, input) = lexer_next input
       in if ttype funcname \<noteq> ''var'' then lexer_error ''Function name expected''
          else and_then (delimited n (CHR ''('') (CHR '')'') (CHR '','') parse_param input)
                 (\<lambda>(params, input). Ok (Some (Function (tvalue funcname) params None), input)))"

text \<open>The last alternative of \<^verbatim>\<open>parse_atom\<close>: one token, consumed, decides the
  literal; \<^verbatim>\<open>unexpected\<close> then reads the token after it.\<close>

definition parse_literal :: "lexer \<Rightarrow> (expr option \<times> lexer) result" where
  "parse_literal input =
     (let (tok, input) = lexer_next input
      in if ttype tok = ''var'' then Ok (Some (Identifier (tvalue tok)), input)
         else if ttype tok = ''num'' then
           and_then (stoi (tvalue tok)) (\<lambda>i. Ok (Some (Number i), input))
         else if ttype tok = ''char'' then Ok (Some (Character (first_char (tvalue tok))), input)
         else if ttype tok = ''str'' then Ok (Some (String (tvalue tok)), input)
         else unexpected input)"

subsection \<open>The recursive descent\<close>

text \<open>
  The mutually recursive functions of the parser are one function \<open>descend\<close> over the
  name and the arguments of the function that is called: \<open>descend n (MaybeBinary left prec)\<close>
  is the call \<^verbatim>\<open>maybe_binary(left, prec)\<close>. The first argument bounds the depth of
  nested calls (and, through \<open>delimited\<close>, the iterations of its loop): every call passes
  on a budget one smaller than its own.

  In \<^verbatim>\<open>new Closure(delimited(...), parse_prog())\<close> the source leaves the order of
  the two argument evaluations to the compiler. The compiled parser evaluates the last
  argument first: \<^verbatim>\<open>parse_prog\<close> reads the block, then \<^verbatim>\<open>delimited\<close> reads
  the parameter list, so a closure is accepted in the form \<open>cls {x} (x)\<close>. The case
  \<open>ParseClosure\<close> follows the compiled parser.
\<close>

type_synonym parsed = "(expr option \<times> lexer) result"

datatype entry =
    ParseAtom
  | ParseExpr
  | ParseProg
  | MaybeBinary "expr option" int
  | ParseClosure
  | ParseCall "expr option"
  | MaybeCall "lexer \<Rightarrow> parsed"
  | ParseIf
  | ParseFunc

primrec descend :: "nat \<Rightarrow> entry \<Rightarrow> lexer \<Rightarrow> parsed" where
  "descend 0 e input = Fuel"
| "descend (Suc n) e input =
     (case e of
        MaybeBinary left prec \<Rightarrow>
          (if is_op [] input then
             (let tok = lexer_peek input
              in and_then (map_at OP_PRECEDENCE (tvalue tok)) (\<lambda>tokprec.
                   if tokprec > prec then
                     (let input = snd (lexer_next input)
                      in if tvalue tok = ''='' then
                           and_then (descend n ParseAtom input) (\<lambda>(atom, input).
                           and_then (descend n (MaybeBinary atom tokprec) input) (\<lambda>(right, input).
                           descend n (MaybeBinary (Some (Assign (tvalue tok) left right)) prec) input))
                         else
                           and_then (descend n ParseAtom input) (\<lambda>(atom, input).
                           and_then (descend n (MaybeBinary atom tokprec) input) (\<lambda>(right, input).
                           descend n (MaybeBinary (Some (Binary (tvalue tok) left right)) prec) input)))
                   else Ok (left, input)))
           else Ok (left, input))
      | ParseClosure \<Rightarrow>
          and_then (descend n ParseProg input) (\<lambda>(body, input).
          and_then (delimited n (CHR ''('') (CHR '')'') (CHR '','') parse_varname input)
            (\<lambda>(vars, input).
          Ok (Some (Closure vars body), input)))
      | ParseCall func \<Rightarrow>
          and_then (delimited n (CHR ''('') (CHR '')'') (CHR '','') (descend n ParseExpr) input)
            (\<lambda>(args, input).
          Ok (Some (Call func args), input))
      | MaybeCall call \<Rightarrow>
          and_then (call input) (\<lambda>(result, input).
          if is_punc (CHR ''('') input then descend n (ParseCall result) input
          else Ok (result, input))
      | ParseIf \<Rightarrow>
          and_then (skip_kw ''if'' input) (\<lambda>input.
          and_then (descend n ParseExpr input) (\<lambda>(cond, input).
          and_then (descend n ParseExpr input) (\<lambda>(thn, input).
          if is_kw ''else'' input then
            and_then (descend n ParseExpr (snd (lexer_next input))) (\<lambda>(els, input).
            Ok (Some (If cond thn els), input))
          else Ok (Some (If cond thn None), input))))
      | ParseFunc \<Rightarrow>
          (let input = snd (lexer_next input);
               (tok, input) = lexer_next input;
               funcname = tvalue tok
           in and_then (if is_punc (CHR ''('') input
                        then delimited n (CHR ''('') (CHR '')'') (CHR '','') parse_param input
                        else Ok ([], input)) (\<lambda>(params, input).
              and_then (descend n ParseExpr input) (\<lambda>(body, input).
              Ok (Some (Function funcname params body), input))))
      | ParseAtom \<Rightarrow>
          descend n (MaybeCall (\<lambda>input.
            if is_kw ''ext'' input then parse_ext n input
            else if is_kw ''def'' input then descend n ParseFunc input
            else if is_punc (CHR ''('') input then
              and_then (descend n ParseExpr (snd (lexer_next input))) (\<lambda>(expr, input).
              and_then (skip_punc (CHR '')'') input) (\<lambda>input.
              Ok (expr, input)))
            else if is_punc (CHR ''{'') input then descend n ParseProg input
            else if is_kw ''if'' input then descend n ParseIf input
            else if is_kw ''true'' input \<or> is_kw ''false'' input then parse_bool input
            else if is_kw ''cls'' input then descend n ParseClosure (snd (lexer_next input))
            else parse_literal input)) input
      | ParseExpr \<Rightarrow>
          descend n (MaybeCall (\<lambda>input.
            and_then (descend n ParseAtom input) (\<lambda>(atom, input).
            descend n (MaybeBinary atom 0) input))) input
      | ParseProg \<Rightarrow>
          and_then (delimited n (CHR ''{'') (CHR ''}'') (CHR '';'') (descend n ParseExpr) input)
            (\<lambda>(vars, input).
          if vars = [] then Ok (None, input) else Ok (Some (Program vars), input)))"

text \<open>The functions of the source, by their names.\<close>

definition parse_atom :: "nat \<Rightarrow> lexer \<Rightarrow> parsed" where
  "parse_atom n = descend n ParseAtom"

definition parse_expr :: "nat \<Rightarrow> lexer \<Rightarrow> parsed" where
  "parse_expr n = descend n ParseExpr"

definition parse_prog :: "nat \<Rightarrow> lexer \<Rightarrow> parsed" where
  "parse_prog n = descend n ParseProg"

definition maybe_binary :: "nat \<Rightarrow> expr option \<Rightarrow> int \<Rightarrow> lexer \<Rightarrow> parsed" where
  "maybe_binary n left prec = descend n (MaybeBinary left prec)"

definition parse_closure :: "nat \<Rightarrow> lexer \<Rightarrow> parsed" where
  "parse_closure n = descend n ParseClosure"

definition parse_call :: "nat \<Rightarrow> expr option \<Rightarrow> lexer \<Rightarrow> parsed" where
  "parse_call n func = descend n (ParseCall func)"

definition maybe_call :: "nat \<Rightarrow> (lexer \<Rightarrow> parsed) \<Rightarrow> lexer \<Rightarrow> parsed" where
  "maybe_call n call = descend n (MaybeCall call)"

definition parse_if :: "nat \<Rightarrow> lexer \<Rightarrow> parsed" where
  "parse_if n = descend n ParseIf"

definition parse_func :: "nat \<Rightarrow> lexer \<Rightarrow> parsed" where
  "parse_func n = descend n ParseFunc"

text \<open>The loop of \<^verbatim>\<open>parse_toplevel\<close>, with the tree built so far.\<close>

fun parse_toplevel_loop :: "nat \<Rightarrow> AST \<Rightarrow> lexer \<Rightarrow> AST result" where
  "parse_toplevel_loop 0 ast input = Fuel"
| "parse_toplevel_loop (Suc n) ast input =
     (if lexer_eof input then Ok ast
      else and_then (parse_expr n input) (\<lambda>(e, input).
           and_then (if \<not> lexer_eof input then skip_punc (CHR '';'') input else Ok input)
             (\<lambda>input. parse_toplevel_loop n (ast @ [e]) input)))"

definition parse_toplevel :: "nat \<Rightarrow> lexer \<Rightarrow> AST result" where
  "parse_toplevel n input = parse_toplevel_loop n [] input"

subsection \<open>Notions for stating the properties\<close>

text \<open>Tokens of the kinds the parser tests for, to write inputs with.\<close>

definition tok_punc :: "string \<Rightarrow> token" where
  "tok_punc v = \<lparr>ttype = ''punc'', tvalue = v\<rparr>"

definition tok_kw :: "string \<Rightarrow> token" where
  "tok_kw v = \<lparr>ttype = ''kw'', tvalue = v\<rparr>"

definition tok_op :: "string \<Rightarrow> token" where
  "tok_op v = \<lparr>ttype = ''op'', tvalue = v\<rparr>"

definition tok_var :: "string \<Rightarrow> token" where
  "tok_var v = \<lparr>ttype = ''var'', tvalue = v\<rparr>"

definition tok_num :: "string \<Rightarrow> token" where
  "tok_num v = \<lparr>ttype = ''num'', tvalue = v\<rparr>"

text \<open>The node \<^verbatim>\<open>maybe_binary\<close> builds for an operator: \<open>Assign\<close> for \<open>=\<close>,
  \<open>Binary\<close> for every other one.\<close>

definition node :: "string \<Rightarrow> expr option \<Rightarrow> expr option \<Rightarrow> expr option" where
  "node opr l r = Some (if opr = ''='' then Assign opr l r else Binary opr l r)"

text \<open>A token that is an operand by itself: the last alternative of \<^verbatim>\<open>parse_atom\<close>
  turns it into the node \<open>a\<close>.\<close>

definition operand :: "token \<Rightarrow> expr option \<Rightarrow> bool" where
  "operand t a = (parse_literal [t] = Ok (a, []))"

text \<open>An input at which a climb with floor \<open>prec\<close> ends and no call follows: the
  lookahead is no \<open>(\<close> and no operator that binds tighter than the floor.\<close>

definition stops :: "int \<Rightarrow> lexer \<Rightarrow> bool" where
  "stops prec input =
     (\<not> is_punc (CHR ''('') input \<and>
      (\<not> is_op [] input \<or>
       (case OP_PRECEDENCE (tvalue (lexer_peek input)) of None \<Rightarrow> False | Some q \<Rightarrow> q \<le> prec)))"

text \<open>A chain of operators with their right operands: its tokens, and the tree that
  absorbs the operands into the left side one after the other.\<close>

fun chain_tokens :: "(string \<times> token \<times> expr option) list \<Rightarrow> lexer" where
  "chain_tokens [] = []"
| "chain_tokens ((opr, t, a) # c) = tok_op opr # t # chain_tokens c"

fun chain_tree :: "expr option \<Rightarrow> (string \<times> token \<times> expr option) list \<Rightarrow> expr option" where
  "chain_tree left [] = left"
| "chain_tree left ((opr, t, a) # c) = chain_tree (node opr left a) c"

text \<open>The tokens of the items of an argument list after the first: each operand with
  the separator before it.\<close>

fun items_tokens :: "(token \<times> expr option) list \<Rightarrow> lexer" where
  "items_tokens [] = []"
| "items_tokens ((t, a) # its) = tok_punc '','' # t # items_tokens its"

text \<open>
  A node is fully formed when its mandatory children are there: both operands of an
  \<open>Assign\<close> and of a \<open>Binary\<close>, the callee of a \<open>Call\<close>, the condition and the
  then-branch of an \<open>If\<close>; and when the nodes below it are fully formed. The
  else-branch, a body, an argument and an expression of a block may be absent.
\<close>

fun fully_formed :: "expr \<Rightarrow> bool" where
  "fully_formed (Assign opr l r) =
     ((case l of None \<Rightarrow> False | Some e \<Rightarrow> fully_formed e) \<and>
      (case r of None \<Rightarrow> False | Some e \<Rightarrow> fully_formed e))"
| "fully_formed (Binary opr l r) =
     ((case l of None \<Rightarrow> False | Some e \<Rightarrow> fully_formed e) \<and>
      (case r of None \<Rightarrow> False | Some e \<Rightarrow> fully_formed e))"
| "fully_formed (If c t e) =
     ((case c of None \<Rightarrow> False | Some x \<Rightarrow> fully_formed x) \<and>
      (case t of None \<Rightarrow> False | Some x \<Rightarrow> fully_formed x) \<and>
      (case e of None \<Rightarrow> True | Some x \<Rightarrow> fully_formed x))"
| "fully_formed (Closure vars body) = (case body of None \<Rightarrow> True | Some x \<Rightarrow> fully_formed x)"
| "fully_formed (Function name params body) =
     (case body of None \<Rightarrow> True | Some x \<Rightarrow> fully_formed x)"
| "fully_formed (Call f args) =
     ((case f of None \<Rightarrow> False | Some x \<Rightarrow> fully_formed x) \<and>
      list_all (\<lambda>a. case a of None \<Rightarrow> True | Some x \<Rightarrow> fully_formed x) args)"
| "fully_formed (Program vars) =
     list_all (\<lambda>a. case a of None \<Rightarrow> True | Some x \<Rightarrow> fully_formed x) vars"
| "fully_formed _ = True"

text \<open>A pointer that is not null, to a fully formed node.\<close>

definition present :: "expr option \<Rightarrow> bool" where
  "present x = (case x of None \<Rightarrow> False | Some e \<Rightarrow> fully_formed e)"

text \<open>No token \<open>{\<close> of the input is directly followed by a token \<open>}\<close>.\<close>

fun no_empty_block :: "lexer \<Rightarrow> bool" where
  "no_empty_block (t # u # rest) =
     (\<not> (is_punc (CHR ''{'') [t] \<and> is_punc (CHR ''}'') [u]) \<and> no_empty_block (u # rest))"
| "no_empty_block _ = True"

text \<open>
  The invariant of the descent: from an input without an empty brace pair, a parser that
  returns yields a value with the property \<open>Q\<close> and leaves an input without an empty
  brace pair.
\<close>

definition keeps :: "(lexer \<Rightarrow> ('a \<times> lexer) result) \<Rightarrow> ('a \<Rightarrow> bool) \<Rightarrow> bool" where
  "keeps p Q =
     (\<forall>input v rest. no_empty_block input \<longrightarrow> p input = Ok (v, rest) \<longrightarrow> Q v \<and> no_empty_block rest)"

text \<open>What a call of \<open>descend\<close> expects of its arguments for the invariant.\<close>

fun entry_ok :: "entry \<Rightarrow> bool" where
  "entry_ok (MaybeBinary left prec) = present left"
| "entry_ok (ParseCall func) = present func"
| "entry_ok (MaybeCall call) = keeps call present"
| "entry_ok _ = True"

text \<open>
  A result and the result of the same call with a larger budget: the second is the first,
  unless the first ran out of budget. The same for two parsers, and for two calls of
  \<open>descend\<close>.
\<close>

definition fuel_le :: "'a result \<Rightarrow> 'a result \<Rightarrow> bool" where
  "fuel_le r r' = (r \<noteq> Fuel \<longrightarrow> r' = r)"

definition extends :: "('i \<Rightarrow> 'a result) \<Rightarrow> ('i \<Rightarrow> 'a result) \<Rightarrow> bool" where
  "extends p q = (\<forall>i. fuel_le (p i) (q i))"

fun entry_le :: "entry \<Rightarrow> entry \<Rightarrow> bool" where
  "entry_le (MaybeCall c) (MaybeCall c') = extends c c'"
| "entry_le e e' = (e = e')"

subsection \<open>Operator trees and the order of the precedence table\<close>

text \<open>
  An expression of operands joined by binary operators, as a tree whose leaves are the
  operands (each the node that \<^verbatim>\<open>parse_atom\<close> built for it). \<open>build\<close> is the AST of
  the tree, with the node that \<^verbatim>\<open>maybe_binary\<close> makes for each operator; \<open>inorder\<close>
  is the expression read from left to right, \<open>operators\<close> its operators.
\<close>

datatype item = Operand "expr option" | Operator string

datatype tree = Leaf "expr option" | Node string tree tree

fun build :: "tree \<Rightarrow> expr option" where
  "build (Leaf a) = a"
| "build (Node opr l r) = node opr (build l) (build r)"

fun inorder :: "tree \<Rightarrow> item list" where
  "inorder (Leaf a) = [Operand a]"
| "inorder (Node opr l r) = inorder l @ Operator opr # inorder r"

fun operators :: "tree \<Rightarrow> string list" where
  "operators (Leaf a) = []"
| "operators (Node opr l r) = operators l @ opr # operators r"

definition prec_of :: "string \<Rightarrow> int" where
  "prec_of opr = (case OP_PRECEDENCE opr of None \<Rightarrow> 0 | Some p \<Rightarrow> p)"

text \<open>
  A tree honors the table when a higher precedence binds tighter and operators of one
  precedence group from the left: the operator at the root of every subtree binds no
  tighter than any operator of its left operand, and less tightly than every operator of
  its right operand. An expression has at most one such tree (lemma \<open>honors_unique\<close>).
\<close>

fun honors :: "tree \<Rightarrow> bool" where
  "honors (Leaf a) = True"
| "honors (Node opr l r) =
     (list_all (\<lambda>q. prec_of opr \<le> prec_of q) (operators l) \<and>
      list_all (\<lambda>q. prec_of opr < prec_of q) (operators r) \<and> honors l \<and> honors r)"

text \<open>
  A sequence of operators of the table, each followed by the tokens \<open>ts\<close> of an operand
  of any form that \<^verbatim>\<open>parse_atom\<close> turns into the node \<open>a\<close> with budget \<open>m\<close>: its
  tokens, its items, and the condition on the operands.
\<close>

fun sequence_tokens :: "(string \<times> lexer \<times> expr option) list \<Rightarrow> lexer" where
  "sequence_tokens [] = []"
| "sequence_tokens ((opr, ts, a) # c) = tok_op opr # ts @ sequence_tokens c"

fun sequence_items :: "(string \<times> lexer \<times> expr option) list \<Rightarrow> item list" where
  "sequence_items [] = []"
| "sequence_items ((opr, ts, a) # c) = Operator opr # Operand a # sequence_items c"

fun parses :: "nat \<Rightarrow> (string \<times> lexer \<times> expr option) list \<Rightarrow> lexer \<Rightarrow> bool" where
  "parses m [] rest = True"
| "parses m ((opr, ts, a) # c) rest =
     (OP_PRECEDENCE opr \<noteq> None \<and>
      parse_atom m (ts @ sequence_tokens c @ rest) = Ok (a, sequence_tokens c @ rest) \<and>
      parses m c rest)"

subsection \<open>Parsers that only consume\<close>



subsection \<open>Results with enough budget\<close>

text \<open>
  A token as a lexer hands it out: the text of a \<open>num\<close> token is a numeral that
  \<^verbatim>\<open>std::stoi\<close> converts, the text of an \<open>op\<close> token is a key of the precedence
  table. On such tokens neither \<^verbatim>\<open>std::stoi\<close> nor \<^verbatim>\<open>OP_PRECEDENCE.at\<close> throws.
\<close>

definition lexable :: "token \<Rightarrow> bool" where
  "lexable t =
     ((ttype t = ''num'' \<longrightarrow> (case stoi (tvalue t) of Ok i \<Rightarrow> True | _ \<Rightarrow> False)) \<and>
      (ttype t = ''op'' \<longrightarrow> OP_PRECEDENCE (tvalue t) \<noteq> None))"

text \<open>
  A decided result is a value or a diagnostic: the budget was enough and no exception of
  the C++ library was thrown. A parser result is settled for an input when it is decided
  and a value comes with less input than was given; a parser settles up to \<open>L\<close> when its
  result is settled for every input of at most \<open>L\<close> lexable tokens.
\<close>

definition decided :: "'a result \<Rightarrow> bool" where
  "decided r =
     (case r of Ok x \<Rightarrow> True
      | Err e \<Rightarrow> (case e of Diagnostic msg \<Rightarrow> True | _ \<Rightarrow> False)
      | Fuel \<Rightarrow> False)"

definition settled :: "lexer \<Rightarrow> ('a \<times> lexer) result \<Rightarrow> bool" where
  "settled input r = (decided r \<and> (\<forall>v rest. r = Ok (v, rest) \<longrightarrow> length rest < length input))"





section \<open>Properties\<close>

subsection \<open>Evaluation rules\<close>

lemma and_then_simps [simp]:
  "and_then (Ok x) f = f x" "and_then (Err e) f = Err e" "and_then Fuel f = Fuel"
  by (simp_all add: and_then_def)

lemma and_then_Ok_iff: "and_then r f = Ok y \<longleftrightarrow> (\<exists>x. r = Ok x \<and> f x = Ok y)"
  by (cases r) simp_all

lemmas tok_defs = tok_punc_def tok_kw_def tok_op_def tok_var_def tok_num_def

lemmas lex_defs = lexer_peek_def lexer_next_def lexer_eof_def null_token_def lexer_error_def
  is_punc_def is_kw_def is_op_def skip_punc_def skip_kw_def skip_op_def first_char_def unexpected_def

lemmas fn_defs = parse_atom_def parse_expr_def parse_prog_def maybe_binary_def parse_closure_def
  parse_call_def maybe_call_def parse_if_def parse_func_def

lemma maybe_binary_0: "maybe_binary 0 left prec input = Fuel"
  by (simp add: fn_defs cong: if_cong)

lemma maybe_binary_Suc:
  "maybe_binary (Suc n) left prec input =
     (if is_op [] input then
        (let tok = lexer_peek input
         in and_then (map_at OP_PRECEDENCE (tvalue tok)) (\<lambda>tokprec.
              if tokprec > prec then
                and_then (parse_atom n (snd (lexer_next input))) (\<lambda>(atom, input).
                and_then (maybe_binary n atom tokprec input) (\<lambda>(right, input).
                maybe_binary n (node (tvalue tok) left right) prec input))
              else Ok (left, input)))
      else Ok (left, input))"
  by (cases "tvalue (lexer_peek input) = ''=''") (simp_all add: fn_defs node_def Let_def cong: if_cong)

lemma maybe_call_Suc:
  "maybe_call (Suc n) call input =
     and_then (call input) (\<lambda>(result, input).
       if is_punc (CHR ''('') input then parse_call n result input else Ok (result, input))"
  by (simp add: fn_defs cong: if_cong)

lemma parse_call_Suc:
  "parse_call (Suc n) func input =
     and_then (delimited n (CHR ''('') (CHR '')'') (CHR '','') (parse_expr n) input)
       (\<lambda>(args, input). Ok (Some (Call func args), input))"
  by (simp add: fn_defs cong: if_cong)

lemma parse_closure_Suc:
  "parse_closure (Suc n) input =
     and_then (parse_prog n input) (\<lambda>(body, input).
     and_then (delimited n (CHR ''('') (CHR '')'') (CHR '','') parse_varname input)
       (\<lambda>(vars, input).
     Ok (Some (Closure vars body), input)))"
  by (simp add: fn_defs cong: if_cong)

lemma parse_if_Suc:
  "parse_if (Suc n) input =
     and_then (skip_kw ''if'' input) (\<lambda>input.
     and_then (parse_expr n input) (\<lambda>(cond, input).
     and_then (parse_expr n input) (\<lambda>(thn, input).
     if is_kw ''else'' input then
       and_then (parse_expr n (snd (lexer_next input))) (\<lambda>(els, input).
       Ok (Some (If cond thn els), input))
     else Ok (Some (If cond thn None), input))))"
  by (simp add: fn_defs cong: if_cong)

lemma parse_func_Suc:
  "parse_func (Suc n) input =
     (let input = snd (lexer_next input);
          (tok, input) = lexer_next input;
          funcname = tvalue tok
      in and_then (if is_punc (CHR ''('') input
                   then delimited n (CHR ''('') (CHR '')'') (CHR '','') parse_param input
                   else Ok ([], input)) (\<lambda>(params, input).
         and_then (parse_expr n input) (\<lambda>(body, input).
         Ok (Some (Function funcname params body), input))))"
  by (simp add: fn_defs cong: if_cong)

lemma parse_atom_Suc:
  "parse_atom (Suc n) input =
     maybe_call n (\<lambda>input.
       if is_kw ''ext'' input then parse_ext n input
       else if is_kw ''def'' input then parse_func n input
       else if is_punc (CHR ''('') input then
         and_then (parse_expr n (snd (lexer_next input))) (\<lambda>(expr, input).
         and_then (skip_punc (CHR '')'') input) (\<lambda>input.
         Ok (expr, input)))
       else if is_punc (CHR ''{'') input then parse_prog n input
       else if is_kw ''if'' input then parse_if n input
       else if is_kw ''true'' input \<or> is_kw ''false'' input then parse_bool input
       else if is_kw ''cls'' input then parse_closure n (snd (lexer_next input))
       else parse_literal input) input"
  by (simp add: fn_defs cong: if_cong)

lemma parse_expr_Suc:
  "parse_expr (Suc n) input =
     maybe_call n (\<lambda>input.
       and_then (parse_atom n input) (\<lambda>(atom, input). maybe_binary n atom 0 input)) input"
  by (simp add: fn_defs cong: if_cong)

lemma parse_prog_Suc:
  "parse_prog (Suc n) input =
     and_then (delimited n (CHR ''{'') (CHR ''}'') (CHR '';'') (parse_expr n) input)
       (\<lambda>(vars, input).
     if vars = [] then Ok (None, input) else Ok (Some (Program vars), input))"
  by (simp add: fn_defs cong: if_cong)


lemmas parser_simps = parse_expr_Suc parse_atom_Suc maybe_call_Suc maybe_binary_Suc parse_call_Suc
  parse_prog_Suc parse_if_Suc parse_func_Suc parse_closure_Suc

subsection \<open>Tokens\<close>

lemma lexer_cons [simp]:
  "lexer_peek (t # rest) = t" "lexer_next (t # rest) = (t, rest)" "lexer_next [] = (null_token, [])"
  "lexer_peek [] = null_token" "lexer_eof [] \<longleftrightarrow> True" "lexer_eof (t # rest) \<longleftrightarrow> False"
  by (simp_all add: lex_defs)

lemma tvalue_tok [simp]:
  "tvalue (tok_op v) = v" "tvalue (tok_kw v) = v" "tvalue (tok_punc v) = v"
  "tvalue (tok_var v) = v" "tvalue (tok_num v) = v" "tvalue null_token = []"
  "ttype (tok_op v) = ''op''" "ttype (tok_kw v) = ''kw''" "ttype (tok_punc v) = ''punc''"
  "ttype (tok_var v) = ''var''" "ttype (tok_num v) = ''num''" "ttype null_token = []"
  by (simp_all add: tok_defs lex_defs)

lemma is_punc_tok [simp]:
  "is_punc c (tok_punc (c # v) # rest)" "\<not> is_punc c []"
  "\<not> is_punc c (tok_op v # rest)" "\<not> is_punc c (tok_kw v # rest)"
  "\<not> is_punc c (tok_var v # rest)" "\<not> is_punc c (tok_num v # rest)"
  "c \<noteq> CHR 0x00 \<Longrightarrow> is_punc c (tok_punc v # rest) \<longleftrightarrow> first_char v = c"
  by (simp_all add: lex_defs tok_defs)

lemma is_kw_tok [simp]:
  "k \<noteq> [] \<Longrightarrow> is_kw k (tok_kw v # rest) \<longleftrightarrow> k = v" "\<not> is_kw k []"
  "\<not> is_kw k (tok_op v # rest)" "\<not> is_kw k (tok_punc v # rest)"
  "\<not> is_kw k (tok_var v # rest)" "\<not> is_kw k (tok_num v # rest)"
  by (auto simp: lex_defs tok_defs)

lemma is_op_tok [simp]:
  "is_op [] (tok_op v # rest)" "\<not> is_op k []"
  "\<not> is_op k (tok_kw v # rest)" "\<not> is_op k (tok_punc v # rest)"
  "\<not> is_op k (tok_var v # rest)" "\<not> is_op k (tok_num v # rest)"
  by (simp_all add: lex_defs tok_defs)

lemma skip_punc_tok [simp]:
  "is_punc c input \<Longrightarrow> skip_punc c input = Ok (snd (lexer_next input))"
  "\<not> is_punc c input \<Longrightarrow>
     skip_punc c input = Err (Diagnostic (''Token '' @ [CHR 0x27] @ [c] @ [CHR 0x27] @ '' expected''))"
  by (simp_all add: skip_punc_def lexer_error_def)

lemma skip_kw_tok [simp]:
  "is_kw k input \<Longrightarrow> skip_kw k input = Ok (snd (lexer_next input))"
  by (simp_all add: skip_kw_def)

lemma stoi_digits [simp]: "stoi ''1'' = Ok 1" "stoi ''2'' = Ok 2" "stoi ''3'' = Ok 3"
  by (simp_all add: stoi_def isspace_def isdigit_def digit_val_def Let_def)

lemmas eval_simps = eval_nat_numeral parser_simps parse_toplevel_def delimited_def parse_ext_def
  parse_literal_def parse_bool_def parse_varname_def parse_param_def map_at_def OP_PRECEDENCE_def
  unexpected_def lexer_error_def first_char_def node_def Let_def

subsection \<open>The precedence table and operands\<close>

lemma dom_OP_PRECEDENCE:
  "dom OP_PRECEDENCE =
     {''='', ''||'', ''&&'', ''<'', ''>'', ''<='', ''>='', ''=='', ''!='', ''+'', ''-'', ''*'',
      ''/'', ''%''}"
  unfolding OP_PRECEDENCE_def dom_map_of_conv_image_fst by simp

lemma OP_PRECEDENCE_positive: "OP_PRECEDENCE k = Some q \<Longrightarrow> 0 < q"
  by (auto simp: OP_PRECEDENCE_def split: if_splits)

lemma operand_kind:
  "operand t a \<Longrightarrow> ttype t = ''var'' \<or> ttype t = ''num'' \<or> ttype t = ''char'' \<or> ttype t = ''str''"
  by (auto simp: operand_def parse_literal_def lex_defs split: if_splits)

lemma operand_not_kw [simp]: "operand t a \<Longrightarrow> \<not> is_kw k (t # rest)"
  by (drule operand_kind) (auto simp: lex_defs)

lemma operand_not_punc [simp]: "operand t a \<Longrightarrow> \<not> is_punc c (t # rest)"
  by (drule operand_kind) (auto simp: lex_defs)

lemma operand_not_op [simp]: "operand t a \<Longrightarrow> \<not> is_op k (t # rest)"
  by (drule operand_kind) (auto simp: lex_defs)

lemma operand_literal [simp]: "operand t a \<Longrightarrow> parse_literal (t # rest) = Ok (a, rest)"
  by (auto simp: operand_def parse_literal_def lex_defs and_then_def split: if_splits result.splits)

lemma operand_var [simp]: "operand (tok_var v) (Some (Identifier v))"
  by (simp add: operand_def parse_literal_def lex_defs tok_defs)

lemma operand_num [simp]:
  "operand (tok_num ''1'') (Some (Number 1))" "operand (tok_num ''2'') (Some (Number 2))"
  "operand (tok_num ''3'') (Some (Number 3))"
  by (simp_all add: operand_def parse_literal_def lex_defs tok_defs)

lemma parse_atom_operand:
  "operand t a \<Longrightarrow>
     parse_atom (Suc (Suc n)) (t # rest) =
       (if is_punc (CHR ''('') rest then parse_call n a rest else Ok (a, rest))"
  by (simp add: parse_atom_Suc maybe_call_Suc)

subsection \<open>Climbing\<close>

lemma maybe_binary_op:
  "OP_PRECEDENCE opr = Some p \<Longrightarrow>
     maybe_binary (Suc n) left prec (tok_op opr # input) =
       (if p > prec then
          and_then (parse_atom n input) (\<lambda>(atom, input).
          and_then (maybe_binary n atom p input) (\<lambda>(right, input).
          maybe_binary n (node opr left right) prec input))
        else Ok (left, tok_op opr # input))"
  by (simp add: maybe_binary_Suc map_at_def)

lemma maybe_binary_stops:
  "stops prec input \<Longrightarrow> prec \<le> prec' \<Longrightarrow> maybe_binary (Suc n) left prec' input = Ok (left, input)"
  by (auto simp: stops_def maybe_binary_Suc map_at_def split: option.splits)

lemma stops_op: "OP_PRECEDENCE opr = Some p \<Longrightarrow> stops prec (tok_op opr # rest) \<longleftrightarrow> p \<le> prec"
  by (simp add: stops_def)

lemma stops_no_call: "stops prec input \<Longrightarrow> \<not> is_punc (CHR ''('') input"
  by (simp add: stops_def)

lemma chain_lookahead:
  assumes "\<forall>(opr, t, a) \<in> set c. OP_PRECEDENCE opr = Some p \<and> operand t a"
    and "stops prec rest" and "prec \<le> p"
  shows "stops p (chain_tokens c @ rest)"
proof (cases c)
  case Nil
  with assms(2,3) show ?thesis
    by (auto simp: stops_def split: option.splits)
next
  case (Cons x c')
  with assms(1) show ?thesis
    by (cases x) (simp add: stops_op)
qed

lemma climb_chain:
  assumes "\<forall>(opr, t, a) \<in> set c. OP_PRECEDENCE opr = Some p \<and> operand t a"
    and "prec < p" and "stops prec rest" and "length c + 3 \<le> n"
  shows "maybe_binary n left prec (chain_tokens c @ rest) = Ok (chain_tree left c, rest)"
  using assms
proof (induction c arbitrary: left n)
  case Nil
  define m where "m = n - 1"
  have n: "n = Suc m"
    using Nil.prems(4) by (simp add: m_def)
  show ?case
    unfolding n using Nil.prems(3) by (simp add: maybe_binary_stops)
next
  case (Cons x c)
  obtain opr t a where x: "x = (opr, t, a)"
    by (cases x)
  define m where "m = n - 3"
  have n: "n = Suc (Suc (Suc m))"
    using Cons.prems(4) by (simp add: m_def)
  have opr: "OP_PRECEDENCE opr = Some p" and t: "operand t a"
    and c: "\<forall>(opr, t, a) \<in> set c. OP_PRECEDENCE opr = Some p \<and> operand t a"
    using Cons.prems(1) x by auto
  have look: "stops p (chain_tokens c @ rest)"
    using c Cons.prems(2,3) by (intro chain_lookahead) auto
  have atom: "parse_atom (Suc (Suc m)) (t # chain_tokens c @ rest) = Ok (a, chain_tokens c @ rest)"
    using t look by (simp add: parse_atom_operand stops_no_call)
  have right: "maybe_binary (Suc (Suc m)) a p (chain_tokens c @ rest) = Ok (a, chain_tokens c @ rest)"
    using look by (simp add: maybe_binary_stops)
  have "maybe_binary (Suc (Suc m)) (node opr left a) prec (chain_tokens c @ rest) =
      Ok (chain_tree (node opr left a) c, rest)"
    using c Cons.prems(2,3,4) n by (intro Cons.IH) auto
  then show ?case
    using opr Cons.prems(2) atom right by (simp add: x n maybe_binary_op)
qed

subsection \<open>Lists of operands\<close>

lemma parse_expr_operand:
  "operand t a \<Longrightarrow> stops 0 rest \<Longrightarrow> parse_expr (3 + k) (t # rest) = Ok (a, rest)"
  by (simp add: eval_nat_numeral parse_expr_Suc maybe_call_Suc parse_atom_operand
      maybe_binary_stops stops_no_call)

lemma stops_items: "stops 0 tail \<Longrightarrow> stops 0 (items_tokens its @ tail)"
  by (cases its rule: items_tokens.cases) (simp_all add: stops_def first_char_def)

lemma stops_close:
  "stops 0 (tok_punc '')'' # rest)" "stops 0 (tok_punc '','' # rest)" "stops 0 []"
  by (simp_all add: stops_def first_char_def)

lemma items_loop:
  assumes "\<forall>(t, a) \<in> set its. operand t a"
    and "stops 0 tail"
    and "\<And>acc'. delimited_loop (Suc k) (CHR '')'') (CHR '','') (parse_expr (3 + j)) False acc' tail =
      Ok (acc', tail')"
  shows "delimited_loop (length its + Suc k) (CHR '')'') (CHR '','') (parse_expr (3 + j)) False acc
      (items_tokens its @ tail) = Ok (acc @ map snd its, tail')"
  using assms(1)
proof (induction its arbitrary: acc)
  case Nil
  show ?case
    using assms(3) [of acc] by simp
next
  case (Cons x its)
  obtain t a where x: "x = (t, a)"
    by (cases x)
  with Cons.prems have t: "operand t a" and its: "\<forall>(t, a) \<in> set its. operand t a"
    by auto
  have "parse_expr (3 + j) (t # items_tokens its @ tail) = Ok (a, items_tokens its @ tail)"
    using t assms(2) by (intro parse_expr_operand stops_items)
  with Cons.IH [OF its, of "acc @ [a]"] t show ?case
    by (simp add: x first_char_def)
qed

lemma loop_at_close:
  "delimited_loop (Suc k) (CHR '')'') (CHR '','') p False acc (tok_punc '')'' # rest) =
     Ok (acc, tok_punc '')'' # rest)"
  "delimited_loop (Suc k) (CHR '')'') (CHR '','') p False acc (tok_punc '','' # tok_punc '')'' # rest) =
     Ok (acc, tok_punc '')'' # rest)"
  "delimited_loop (Suc k) (CHR '')'') (CHR '','') p False acc [] = Ok (acc, [])"
  by (simp_all add: first_char_def)

lemma items_list:
  assumes "operand t a" and "\<forall>(t, a) \<in> set its. operand t a"
    and "stops 0 tail"
    and "\<And>acc'. delimited_loop (Suc k) (CHR '')'') (CHR '','') (parse_expr (3 + j)) False acc' tail =
      Ok (acc', tail')"
  shows "delimited (length its + 2 + k) (CHR ''('') (CHR '')'') (CHR '','') (parse_expr (3 + j))
       (tok_punc ''('' # t # items_tokens its @ tail) =
     and_then (skip_punc (CHR '')'') tail') (\<lambda>input. Ok (a # map snd its, input))"
proof -
  have "parse_expr (3 + j) (t # items_tokens its @ tail) = Ok (a, items_tokens its @ tail)"
    using assms(1,3) by (intro parse_expr_operand stops_items)
  with items_loop [OF assms(2-4), of "[a]"] assms(1) show ?thesis
    by (simp add: delimited_def)
qed

subsection \<open>The invariant of the descent\<close>

lemma and_then_OkE:
  assumes "and_then r f = Ok y"
  obtains x where "r = Ok x" and "f x = Ok y"
  using assms by (auto simp: and_then_Ok_iff)

lemma no_empty_block_next: "no_empty_block input \<Longrightarrow> no_empty_block (snd (lexer_next input))"
  by (cases input rule: no_empty_block.cases) (simp_all add: lexer_next_def)

lemma lexer_next_keeps:
  "lexer_next input = (t, rest) \<Longrightarrow> no_empty_block input \<Longrightarrow> no_empty_block rest"
  using no_empty_block_next [of input] by simp

lemma keepsI:
  assumes "\<And>input v rest. no_empty_block input \<Longrightarrow> p input = Ok (v, rest) \<Longrightarrow> Q v \<and> no_empty_block rest"
  shows "keeps p Q"
  using assms by (simp add: keeps_def)

lemma keepsD: "keeps p Q \<Longrightarrow> no_empty_block input \<Longrightarrow> p input = Ok (v, rest) \<Longrightarrow> Q v \<and> no_empty_block rest"
  by (simp add: keeps_def)

lemma skip_punc_keeps: "skip_punc c input = Ok rest \<Longrightarrow> no_empty_block input \<Longrightarrow> no_empty_block rest"
  by (auto simp: skip_punc_def lexer_error_def no_empty_block_next split: if_splits)

lemma skip_kw_keeps: "skip_kw c input = Ok rest \<Longrightarrow> no_empty_block input \<Longrightarrow> no_empty_block rest"
  by (auto simp: skip_kw_def lexer_error_def no_empty_block_next split: if_splits)

lemma delimited_loop_keeps:
  assumes "keeps p Q"
  shows "no_empty_block input \<Longrightarrow> list_all Q list \<Longrightarrow>
    delimited_loop n e s p first list input = Ok (vs, rest) \<Longrightarrow>
    list_all Q vs \<and> no_empty_block rest"
proof (induction n arbitrary: first list input)
  case 0
  then show ?case by simp
next
  case (Suc n)
  show ?case
  proof (cases "lexer_eof input \<or> is_punc e input")
    case True
    with Suc.prems show ?thesis by (auto split: if_splits)
  next
    case False
    from False Suc.prems(3) obtain i1 where
      i1: "(if first then Ok input else skip_punc s input) = Ok i1"
      and r: "(if is_punc e i1 then Ok (list, i1)
               else and_then (p i1) (\<lambda>(item, i2). delimited_loop n e s p False (list @ [item]) i2))
              = Ok (vs, rest)"
      by (auto simp: and_then_Ok_iff split: if_splits)
    have n1: "no_empty_block i1"
      using i1 Suc.prems(1) by (auto split: if_splits intro: skip_punc_keeps)
    show ?thesis
    proof (cases "is_punc e i1")
      case True
      with r n1 Suc.prems(2) show ?thesis by auto
    next
      case False
      with r obtain item i2 where
        item: "p i1 = Ok (item, i2)"
        and loop: "delimited_loop n e s p False (list @ [item]) i2 = Ok (vs, rest)"
        by (auto simp: and_then_Ok_iff)
      from keepsD [OF assms n1 item] have "Q item" "no_empty_block i2"
        by auto
      with Suc.IH [OF _ _ loop] Suc.prems(2) show ?thesis
        by simp
    qed
  qed
qed

lemma delimited_loop_extends:
  "delimited_loop n e s p first list input = Ok (vs, rest) \<Longrightarrow> length list \<le> length vs"
proof (induction n arbitrary: first list input)
  case 0
  then show ?case by simp
next
  case (Suc n)
  then show ?case
    by (fastforce simp: and_then_Ok_iff split: if_splits)
qed

lemma delimited_keeps:
  assumes "keeps p Q" "no_empty_block input" "delimited n b e s p input = Ok (vs, rest)"
  shows "list_all Q vs \<and> no_empty_block rest"
proof -
  from assms(3) obtain i1 i2 where
    a: "skip_punc b input = Ok i1" and b: "delimited_loop n e s p True [] i1 = Ok (vs, i2)"
    and c: "skip_punc e i2 = Ok rest"
    by (auto simp: delimited_def and_then_Ok_iff)
  from a assms(2) have "no_empty_block i1"
    by (rule skip_punc_keeps)
  from delimited_loop_keeps [OF assms(1) this _ b] have "list_all Q vs" "no_empty_block i2"
    by auto
  with c show ?thesis
    by (auto intro: skip_punc_keeps)
qed

lemma delimited_block_nonempty:
  assumes "no_empty_block input"
    and "delimited n (CHR ''{'') (CHR ''}'') s p input = Ok (vs, rest)"
  shows "vs \<noteq> []"
proof
  assume "vs = []"
  with assms(2) obtain i1 i2 where
    a: "skip_punc (CHR ''{'') input = Ok i1"
    and b: "delimited_loop n (CHR ''}'') s p True [] i1 = Ok ([], i2)"
    and c: "skip_punc (CHR ''}'') i2 = Ok rest"
    by (auto simp: delimited_def and_then_Ok_iff)
  from a obtain t where input: "input = t # i1" and t: "is_punc (CHR ''{'') [t]"
    by (cases input) (auto simp: skip_punc_def lex_defs split: if_splits)
  from b obtain m where n: "n = Suc m"
    by (cases n) auto
  from c have i2: "i2 \<noteq> []"
    by (auto simp: skip_punc_def lex_defs split: if_splits)
  have "\<not> is_punc (CHR ''}'') i1"
  proof
    assume "is_punc (CHR ''}'') i1"
    then obtain u r where "i1 = u # r" "is_punc (CHR ''}'') [u]"
      by (cases i1) (auto simp: lex_defs)
    with assms(1) input t show False
      by simp
  qed
  with b n i2 obtain item i3 where "delimited_loop m (CHR ''}'') s p False [item] i3 = Ok ([], i2)"
    by (auto simp: and_then_Ok_iff lexer_eof_def split: if_splits)
  from delimited_loop_extends [OF this] show False
    by simp
qed

lemma present_node: "present l \<Longrightarrow> present r \<Longrightarrow> present (node opr l r)"
  by (auto simp: present_def node_def split: option.splits)

lemma present_optional:
  "list_all present xs \<Longrightarrow> list_all (\<lambda>a. case a of None \<Rightarrow> True | Some x \<Rightarrow> fully_formed x) xs"
  by (induction xs) (auto simp: present_def split: option.splits)

lemma parse_varname_keeps: "keeps parse_varname (\<lambda>_. True)"
  by (rule keepsI)
    (auto simp: parse_varname_def lexer_error_def split: prod.splits if_splits
      dest: lexer_next_keeps)

lemma parse_param_keeps: "keeps parse_param (\<lambda>_. True)"
  by (rule keepsI)
    (auto simp: parse_param_def lexer_error_def split: prod.splits if_splits
      dest: lexer_next_keeps)

lemma parse_bool_keeps: "keeps parse_bool present"
  by (rule keepsI)
    (auto simp: parse_bool_def present_def split: prod.splits dest: lexer_next_keeps)

lemma parse_literal_keeps: "keeps parse_literal present"
  by (rule keepsI)
    (auto simp: parse_literal_def present_def unexpected_def lexer_error_def
      split: prod.splits if_splits elim!: and_then_OkE dest: lexer_next_keeps)

lemma parse_ext_keeps: "keeps (parse_ext n) present"
proof (rule keepsI)
  fix input v rest
  assume neb: "no_empty_block input" and ok: "parse_ext n input = Ok (v, rest)"
  then obtain i1 params where
    a: "skip_kw ''ext'' input = Ok i1"
    and d: "delimited n (CHR ''('') (CHR '')'') (CHR '','') parse_param (snd (lexer_next i1)) =
      Ok (params, rest)"
    and v: "v = Some (Function (tvalue (fst (lexer_next i1))) params None)"
    by (auto simp: parse_ext_def lexer_error_def split: prod.splits if_splits elim!: and_then_OkE)
  from skip_kw_keeps [OF a neb] have "no_empty_block (snd (lexer_next i1))"
    by (rule no_empty_block_next)
  from delimited_keeps [OF parse_param_keeps this d] v show "present v \<and> no_empty_block rest"
    by (simp add: present_def)
qed

lemma maybe_binary_keeps:
  assumes atom: "keeps (parse_atom n) present"
    and climb: "\<And>l p. present l \<Longrightarrow> keeps (maybe_binary n l p) present"
    and left: "present left"
  shows "keeps (maybe_binary (Suc n) left prec) present"
proof (rule keepsI)
  fix input v rest
  assume neb: "no_empty_block input" and ok: "maybe_binary (Suc n) left prec input = Ok (v, rest)"
  show "present v \<and> no_empty_block rest"
  proof (cases "is_op [] input")
    case False
    with ok neb left show ?thesis
      by (simp add: maybe_binary_Suc)
  next
    case True
    with ok obtain tokprec where
      r: "(if tokprec > prec then
            and_then (parse_atom n (snd (lexer_next input))) (\<lambda>(atom, input').
            and_then (maybe_binary n atom tokprec input') (\<lambda>(right, input').
            maybe_binary n (node (tvalue (lexer_peek input)) left right) prec input'))
          else Ok (left, input)) = Ok (v, rest)"
      by (auto simp: maybe_binary_Suc Let_def elim!: and_then_OkE)
    show ?thesis
    proof (cases "tokprec > prec")
      case False
      with r neb left show ?thesis
        by simp
    next
      case True
      with r obtain a i1 right i2 where
        a: "parse_atom n (snd (lexer_next input)) = Ok (a, i1)"
        and b: "maybe_binary n a tokprec i1 = Ok (right, i2)"
        and c: "maybe_binary n (node (tvalue (lexer_peek input)) left right) prec i2 = Ok (v, rest)"
        by (auto elim!: and_then_OkE)
      from keepsD [OF atom no_empty_block_next [OF neb] a] have a': "present a" "no_empty_block i1"
        by auto
      from keepsD [OF climb [OF a'(1)] a'(2) b] have b': "present right" "no_empty_block i2"
        by auto
      from keepsD [OF climb [OF present_node [OF left b'(1)]] b'(2) c] show ?thesis .
    qed
  qed
qed

lemma parse_call_keeps:
  assumes expr: "keeps (parse_expr n) present" and func: "present func"
  shows "keeps (parse_call (Suc n) func) present"
proof (rule keepsI)
  fix input v rest
  assume neb: "no_empty_block input" and ok: "parse_call (Suc n) func input = Ok (v, rest)"
  then obtain args where
    d: "delimited n (CHR ''('') (CHR '')'') (CHR '','') (parse_expr n) input = Ok (args, rest)"
    and v: "v = Some (Call func args)"
    by (auto simp: parse_call_Suc elim!: and_then_OkE)
  from delimited_keeps [OF expr neb d] func v show "present v \<and> no_empty_block rest"
    by (auto simp: present_def dest: present_optional split: option.splits)
qed

lemma maybe_call_keeps:
  assumes call: "keeps call present"
    and wrap: "\<And>f. present f \<Longrightarrow> keeps (parse_call n f) present"
  shows "keeps (maybe_call (Suc n) call) present"
proof (rule keepsI)
  fix input v rest
  assume neb: "no_empty_block input" and ok: "maybe_call (Suc n) call input = Ok (v, rest)"
  then obtain r i1 where
    a: "call input = Ok (r, i1)"
    and b: "(if is_punc (CHR ''('') i1 then parse_call n r i1 else Ok (r, i1)) = Ok (v, rest)"
    by (auto simp: maybe_call_Suc elim!: and_then_OkE)
  from keepsD [OF call neb a] have r: "present r" "no_empty_block i1"
    by auto
  show "present v \<and> no_empty_block rest"
  proof (cases "is_punc (CHR ''('') i1")
    case True
    with b have "parse_call n r i1 = Ok (v, rest)"
      by simp
    from keepsD [OF wrap [OF r(1)] r(2) this] show ?thesis .
  next
    case False
    with b r show ?thesis
      by simp
  qed
qed

lemma parse_prog_keeps:
  assumes expr: "keeps (parse_expr n) present"
  shows "keeps (parse_prog (Suc n)) present"
proof (rule keepsI)
  fix input v rest
  assume neb: "no_empty_block input" and ok: "parse_prog (Suc n) input = Ok (v, rest)"
  then obtain vars where
    d: "delimited n (CHR ''{'') (CHR ''}'') (CHR '';'') (parse_expr n) input = Ok (vars, rest)"
    and v: "v = (if vars = [] then None else Some (Program vars))"
    by (auto simp: parse_prog_Suc elim!: and_then_OkE split: if_splits)
  from delimited_block_nonempty [OF neb d] have "vars \<noteq> []" .
  with delimited_keeps [OF expr neb d] v show "present v \<and> no_empty_block rest"
    by (auto simp: present_def dest: present_optional)
qed

lemma parse_closure_keeps:
  assumes prog: "keeps (parse_prog n) present"
  shows "keeps (parse_closure (Suc n)) present"
proof (rule keepsI)
  fix input v rest
  assume neb: "no_empty_block input" and ok: "parse_closure (Suc n) input = Ok (v, rest)"
  then obtain body i1 vars where
    b: "parse_prog n input = Ok (body, i1)"
    and d: "delimited n (CHR ''('') (CHR '')'') (CHR '','') parse_varname i1 = Ok (vars, rest)"
    and v: "v = Some (Closure vars body)"
    by (auto simp: parse_closure_Suc elim!: and_then_OkE)
  from keepsD [OF prog neb b] have body: "present body" "no_empty_block i1"
    by auto
  from delimited_keeps [OF parse_varname_keeps body(2) d] body(1) v
  show "present v \<and> no_empty_block rest"
    by (auto simp: present_def split: option.splits)
qed

lemma parse_if_keeps:
  assumes expr: "keeps (parse_expr n) present"
  shows "keeps (parse_if (Suc n)) present"
proof (rule keepsI)
  fix input v rest
  assume neb: "no_empty_block input" and ok: "parse_if (Suc n) input = Ok (v, rest)"
  then obtain i1 c i2 t i3 where
    a: "skip_kw ''if'' input = Ok i1"
    and c: "parse_expr n i1 = Ok (c, i2)"
    and t: "parse_expr n i2 = Ok (t, i3)"
    and r: "(if is_kw ''else'' i3 then
              and_then (parse_expr n (snd (lexer_next i3))) (\<lambda>(els, input).
              Ok (Some (If c t els), input))
            else Ok (Some (If c t None), i3)) = Ok (v, rest)"
    by (auto simp: parse_if_Suc elim!: and_then_OkE)
  from keepsD [OF expr skip_kw_keeps [OF a neb] c] have c': "present c" "no_empty_block i2"
    by auto
  from keepsD [OF expr c'(2) t] have t': "present t" "no_empty_block i3"
    by auto
  show "present v \<and> no_empty_block rest"
  proof (cases "is_kw ''else'' i3")
    case True
    with r obtain els where
      e: "parse_expr n (snd (lexer_next i3)) = Ok (els, rest)" and v: "v = Some (If c t els)"
      by (auto elim!: and_then_OkE)
    from keepsD [OF expr no_empty_block_next [OF t'(2)] e] c'(1) t'(1) v show ?thesis
      by (auto simp: present_def split: option.splits)
  next
    case False
    with r c'(1) t' show ?thesis
      by (auto simp: present_def split: option.splits)
  qed
qed

lemma parse_func_keeps:
  assumes expr: "keeps (parse_expr n) present"
  shows "keeps (parse_func (Suc n)) present"
proof (rule keepsI)
  fix input v rest
  assume neb: "no_empty_block input" and ok: "parse_func (Suc n) input = Ok (v, rest)"
  let ?i1 = "snd (lexer_next (snd (lexer_next input)))"
  have n1: "no_empty_block ?i1"
    using neb by (intro no_empty_block_next)
  from ok obtain params i2 body where
    p: "(if is_punc (CHR ''('') ?i1
         then delimited n (CHR ''('') (CHR '')'') (CHR '','') parse_param ?i1
         else Ok ([], ?i1)) = Ok (params, i2)"
    and b: "parse_expr n i2 = Ok (body, rest)"
    and v: "v = Some (Function (tvalue (fst (lexer_next (snd (lexer_next input))))) params body)"
    by (auto simp: parse_func_Suc Let_def split_def elim!: and_then_OkE)
  have "no_empty_block i2"
    using p n1 delimited_keeps [OF parse_param_keeps n1] by (auto split: if_splits)
  from keepsD [OF expr this b] v show "present v \<and> no_empty_block rest"
    by (auto simp: present_def split: option.splits)
qed

lemma atom_body_keeps:
  assumes expr: "keeps (parse_expr n) present"
    and func: "keeps (parse_func n) present"
    and prog: "keeps (parse_prog n) present"
    and cond: "keeps (parse_if n) present"
    and closure: "keeps (parse_closure n) present"
  shows "keeps (\<lambda>input.
       if is_kw ''ext'' input then parse_ext n input
       else if is_kw ''def'' input then parse_func n input
       else if is_punc (CHR ''('') input then
         and_then (parse_expr n (snd (lexer_next input))) (\<lambda>(expr, input).
         and_then (skip_punc (CHR '')'') input) (\<lambda>input.
         Ok (expr, input)))
       else if is_punc (CHR ''{'') input then parse_prog n input
       else if is_kw ''if'' input then parse_if n input
       else if is_kw ''true'' input \<or> is_kw ''false'' input then parse_bool input
       else if is_kw ''cls'' input then parse_closure n (snd (lexer_next input))
       else parse_literal input) present"
proof (rule keepsI)
  fix input v rest
  assume neb: "no_empty_block input"
  note nxt = no_empty_block_next [OF neb]
  assume "(if is_kw ''ext'' input then parse_ext n input
       else if is_kw ''def'' input then parse_func n input
       else if is_punc (CHR ''('') input then
         and_then (parse_expr n (snd (lexer_next input))) (\<lambda>(expr, input).
         and_then (skip_punc (CHR '')'') input) (\<lambda>input.
         Ok (expr, input)))
       else if is_punc (CHR ''{'') input then parse_prog n input
       else if is_kw ''if'' input then parse_if n input
       else if is_kw ''true'' input \<or> is_kw ''false'' input then parse_bool input
       else if is_kw ''cls'' input then parse_closure n (snd (lexer_next input))
       else parse_literal input) = Ok (v, rest)"
  then consider
      "parse_ext n input = Ok (v, rest)"
    | "parse_func n input = Ok (v, rest)"
    | i1 where "parse_expr n (snd (lexer_next input)) = Ok (v, i1)" "skip_punc (CHR '')'') i1 = Ok rest"
    | "parse_prog n input = Ok (v, rest)"
    | "parse_if n input = Ok (v, rest)"
    | "parse_bool input = Ok (v, rest)"
    | "parse_closure n (snd (lexer_next input)) = Ok (v, rest)"
    | "parse_literal input = Ok (v, rest)"
    by (auto split: if_splits elim!: and_then_OkE)
  then show "present v \<and> no_empty_block rest"
  proof cases
    case 1
    from keepsD [OF parse_ext_keeps neb this] show ?thesis .
  next
    case 2
    from keepsD [OF func neb this] show ?thesis .
  next
    case 3
    from keepsD [OF expr nxt 3(1)] skip_punc_keeps [OF 3(2)] show ?thesis
      by simp
  next
    case 4
    from keepsD [OF prog neb this] show ?thesis .
  next
    case 5
    from keepsD [OF cond neb this] show ?thesis .
  next
    case 6
    from keepsD [OF parse_bool_keeps neb this] show ?thesis .
  next
    case 7
    from keepsD [OF closure nxt this] show ?thesis .
  next
    case 8
    from keepsD [OF parse_literal_keeps neb this] show ?thesis .
  qed
qed

lemma expr_body_keeps:
  assumes atom: "keeps (parse_atom n) present"
    and climb: "\<And>l p. present l \<Longrightarrow> keeps (maybe_binary n l p) present"
  shows "keeps (\<lambda>input. and_then (parse_atom n input) (\<lambda>(atom, input). maybe_binary n atom 0 input))
    present"
proof (rule keepsI)
  fix input v rest
  assume neb: "no_empty_block input"
    and "and_then (parse_atom n input) (\<lambda>(atom, input). maybe_binary n atom 0 input) = Ok (v, rest)"
  then obtain a i1 where a: "parse_atom n input = Ok (a, i1)" and b: "maybe_binary n a 0 i1 = Ok (v, rest)"
    by (auto elim!: and_then_OkE)
  from keepsD [OF atom neb a] have "present a" "no_empty_block i1"
    by auto
  from keepsD [OF climb [OF this(1)] this(2) b] show "present v \<and> no_empty_block rest" .
qed

lemma descend_keeps: "entry_ok e \<Longrightarrow> keeps (descend n e) present"
proof (induction n arbitrary: e)
  case 0
  show ?case
    by (rule keepsI) simp
next
  case (Suc n)
  have atom: "keeps (parse_atom n) present" and expr: "keeps (parse_expr n) present"
    and prog: "keeps (parse_prog n) present" and cond: "keeps (parse_if n) present"
    and func: "keeps (parse_func n) present" and closure: "keeps (parse_closure n) present"
    using Suc.IH [of ParseAtom] Suc.IH [of ParseExpr] Suc.IH [of ParseProg] Suc.IH [of ParseIf]
      Suc.IH [of ParseFunc] Suc.IH [of ParseClosure]
    by (simp_all add: fn_defs)
  have climb: "keeps (maybe_binary n l p) present" if "present l" for l p
    using Suc.IH [of "MaybeBinary l p"] that by (simp add: fn_defs)
  have wrap: "keeps (parse_call n f) present" if "present f" for f
    using Suc.IH [of "ParseCall f"] that by (simp add: fn_defs)
  have call: "keeps (maybe_call n c) present" if "keeps c present" for c
    using Suc.IH [of "MaybeCall c"] that by (simp add: fn_defs)
  show ?case
  proof (cases e)
    case ParseAtom
    have "keeps (parse_atom (Suc n)) present"
      unfolding parse_atom_Suc [abs_def]
      by (intro call atom_body_keeps expr func prog cond closure)
    with ParseAtom show ?thesis by (simp only: fn_defs entry_ok.simps)
  next
    case ParseExpr
    have "keeps (parse_expr (Suc n)) present"
      unfolding parse_expr_Suc [abs_def]
      by (intro call expr_body_keeps atom climb)
    with ParseExpr show ?thesis by (simp only: fn_defs entry_ok.simps)
  next
    case ParseProg
    with parse_prog_keeps [OF expr] show ?thesis by (simp only: fn_defs entry_ok.simps)
  next
    case (MaybeBinary l p)
    with Suc.prems maybe_binary_keeps [OF atom climb, of l p] show ?thesis by (simp only: fn_defs entry_ok.simps)
  next
    case ParseClosure
    with parse_closure_keeps [OF prog] show ?thesis by (simp only: fn_defs entry_ok.simps)
  next
    case (ParseCall f)
    with Suc.prems parse_call_keeps [OF expr, of f] show ?thesis by (simp only: fn_defs entry_ok.simps)
  next
    case (MaybeCall c)
    with Suc.prems maybe_call_keeps [OF _ wrap, of c] show ?thesis by (simp only: fn_defs entry_ok.simps)
  next
    case ParseIf
    with parse_if_keeps [OF expr] show ?thesis by (simp only: fn_defs entry_ok.simps)
  next
    case ParseFunc
    with parse_func_keeps [OF expr] show ?thesis by (simp only: fn_defs entry_ok.simps)
  qed
qed

lemma parse_toplevel_loop_present:
  "no_empty_block input \<Longrightarrow> list_all present acc \<Longrightarrow>
     parse_toplevel_loop n acc input = Ok ast \<Longrightarrow> list_all present ast"
proof (induction n arbitrary: acc input)
  case 0
  then show ?case by simp
next
  case (Suc n)
  show ?case
  proof (cases "lexer_eof input")
    case True
    with Suc.prems show ?thesis by simp
  next
    case False
    with Suc.prems(3) obtain e i1 i2 where
      e: "parse_expr n input = Ok (e, i1)"
      and s: "(if \<not> lexer_eof i1 then skip_punc (CHR '';'') i1 else Ok i1) = Ok i2"
      and l: "parse_toplevel_loop n (acc @ [e]) i2 = Ok ast"
      by (auto elim!: and_then_OkE)
    have "keeps (parse_expr n) present"
      using descend_keeps [of ParseExpr n] by (simp add: fn_defs)
    from keepsD [OF this Suc.prems(1) e] have e': "present e" "no_empty_block i1"
      by auto
    with s have "no_empty_block i2"
      by (auto split: if_splits intro: skip_punc_keeps)
    from Suc.IH [OF this _ l] e'(1) Suc.prems(2) show ?thesis
      by simp
  qed
qed

subsection \<open>A larger budget does not change a result\<close>

lemma fuel_le_refl: "fuel_le r r"
  by (simp add: fuel_le_def)

lemma fuel_le_and_then:
  "fuel_le r r' \<Longrightarrow> (\<And>x. r = Ok x \<Longrightarrow> fuel_le (f x) (f' x)) \<Longrightarrow>
     fuel_le (and_then r f) (and_then r' f')"
  by (cases r) (auto simp: fuel_le_def)

lemma fuel_le_if:
  "(c \<Longrightarrow> fuel_le a a') \<Longrightarrow> (\<not> c \<Longrightarrow> fuel_le b b') \<Longrightarrow>
     fuel_le (if c then a else b) (if c then a' else b')"
  by simp

lemma fuel_le_case_prod:
  "(\<And>a b. x = (a, b) \<Longrightarrow> fuel_le (f a b) (f' a b)) \<Longrightarrow>
     fuel_le (case x of (a, b) \<Rightarrow> f a b) (case x of (a, b) \<Rightarrow> f' a b)"
  by (cases x) simp

lemmas fuel_le_intros = fuel_le_and_then fuel_le_if fuel_le_case_prod fuel_le_refl

lemma extendsI: "(\<And>i. fuel_le (p i) (q i)) \<Longrightarrow> extends p q"
  by (simp add: extends_def)

lemma extendsD: "extends p q \<Longrightarrow> fuel_le (p i) (q i)"
  by (simp add: extends_def)

lemma extends_refl: "extends p p"
  by (simp add: extends_def fuel_le_refl)

lemma entry_le_refl: "entry_le e e"
  by (cases e) (simp_all add: extends_refl)

lemma entry_le_MaybeCall: "extends c c' \<Longrightarrow> entry_le (MaybeCall c) (MaybeCall c')"
  by simp

lemma delimited_loop_mono:
  assumes "extends p q"
  shows "n \<le> m \<Longrightarrow>
    fuel_le (delimited_loop n e s p first list input) (delimited_loop m e s q first list input)"
proof (induction n arbitrary: m first list input)
  case 0
  then show ?case by (simp add: fuel_le_def)
next
  case (Suc n)
  then obtain m' where m: "m = Suc m'" and le: "n \<le> m'"
    by (cases m) auto
  show ?case
    unfolding m delimited_loop.simps
    by (intro fuel_le_intros extendsD [OF assms] Suc.IH [OF le])
qed

lemma delimited_mono:
  "extends p q \<Longrightarrow> n \<le> m \<Longrightarrow>
     fuel_le (delimited n b e s p input) (delimited m b e s q input)"
  unfolding delimited_def by (intro fuel_le_intros delimited_loop_mono)

lemma parse_ext_mono: "n \<le> m \<Longrightarrow> fuel_le (parse_ext n input) (parse_ext m input)"
  unfolding parse_ext_def Let_def
  by (intro fuel_le_intros delimited_mono extendsI)

lemma descend_mono:
  "n \<le> m \<Longrightarrow> entry_le e e' \<Longrightarrow> fuel_le (descend n e input) (descend m e' input)"
proof (induction n arbitrary: m e e' input)
  case 0
  then show ?case by (simp add: fuel_le_def)
next
  case (Suc n)
  then obtain m' where m: "m = Suc m'" and le: "n \<le> m'"
    by (cases m) auto
  note IH = Suc.IH [OF le]
  have ext: "extends (descend n x) (descend m' x)" for x
    by (intro extendsI IH entry_le_refl)
  note intros = fuel_le_intros delimited_mono parse_ext_mono ext le IH entry_le_refl
    entry_le_MaybeCall extendsI
  show ?case
  proof (cases e)
    case (MaybeCall c)
    with Suc.prems(2) obtain c' where e': "e' = MaybeCall c'" and c: "extends c c'"
      by (cases e') auto
    show ?thesis
      unfolding m MaybeCall e' descend.simps entry.case
      by (intro extendsD [OF c] intros)
  next
    case ParseAtom
    with Suc.prems(2) have e': "e' = ParseAtom" by simp
    show ?thesis
      unfolding m ParseAtom e' descend.simps entry.case
      by (intro intros)
  next
    case ParseExpr
    with Suc.prems(2) have e': "e' = ParseExpr" by simp
    show ?thesis
      unfolding m ParseExpr e' descend.simps entry.case
      by (intro intros)
  next
    case ParseProg
    with Suc.prems(2) have e': "e' = ParseProg" by simp
    show ?thesis
      unfolding m ParseProg e' descend.simps entry.case
      by (intro intros)
  next
    case (MaybeBinary l p)
    with Suc.prems(2) have e': "e' = MaybeBinary l p" by simp
    show ?thesis
      unfolding m MaybeBinary e' descend.simps entry.case Let_def
      by (intro intros)
  next
    case ParseClosure
    with Suc.prems(2) have e': "e' = ParseClosure" by simp
    show ?thesis
      unfolding m ParseClosure e' descend.simps entry.case
      by (intro intros)
  next
    case (ParseCall f)
    with Suc.prems(2) have e': "e' = ParseCall f" by simp
    show ?thesis
      unfolding m ParseCall e' descend.simps entry.case
      by (intro intros)
  next
    case ParseIf
    with Suc.prems(2) have e': "e' = ParseIf" by simp
    show ?thesis
      unfolding m ParseIf e' descend.simps entry.case
      by (intro intros)
  next
    case ParseFunc
    with Suc.prems(2) have e': "e' = ParseFunc" by simp
    show ?thesis
      unfolding m ParseFunc e' descend.simps entry.case Let_def split_def
      by (intro intros)
  qed
qed

lemma parse_toplevel_loop_mono:
  "n \<le> m \<Longrightarrow> fuel_le (parse_toplevel_loop n ast input) (parse_toplevel_loop m ast input)"
proof (induction n arbitrary: m ast input)
  case 0
  then show ?case by (simp add: fuel_le_def)
next
  case (Suc n)
  then obtain m' where m: "m = Suc m'" and le: "n \<le> m'"
    by (cases m) auto
  show ?case
    unfolding m parse_toplevel_loop.simps parse_expr_def
    by (intro fuel_le_intros descend_mono le entry_le_refl Suc.IH)
qed

lemma parse_toplevel_mono:
  "parse_toplevel n input \<noteq> Fuel \<Longrightarrow> n \<le> m \<Longrightarrow> parse_toplevel m input = parse_toplevel n input"
  using parse_toplevel_loop_mono [of n m "[]" input] by (simp add: parse_toplevel_def fuel_le_def)

subsection \<open>Climbing over any sequence of operators\<close>

lemma parse_atom_mono:
  "parse_atom m input = Ok r \<Longrightarrow> m \<le> n \<Longrightarrow> parse_atom n input = Ok r"
  using descend_mono [OF _ entry_le_refl, of m n ParseAtom input]
  by (simp add: parse_atom_def fuel_le_def)

lemma parses_append: "parses m (c1 @ c2) rest \<Longrightarrow> parses m c2 rest"
  by (induction c1) auto

lemma sequence_tokens_append [simp]:
  "sequence_tokens (c1 @ c2) = sequence_tokens c1 @ sequence_tokens c2"
  by (induction c1) auto

lemma sequence_items_append [simp]:
  "sequence_items (c1 @ c2) = sequence_items c1 @ sequence_items c2"
  by (induction c1) auto

lemma operator_items: "Operator q \<in> set (inorder T) \<longleftrightarrow> q \<in> set (operators T)"
  by (induction T) auto

lemma inorder_not_Nil [simp]: "inorder T \<noteq> []"
  by (cases T) auto

lemma inorder_Node_not_single: "inorder (Node opr l r) \<noteq> [x]"
  using inorder_not_Nil [of l] by (cases "inorder l") auto

lemma split_before:
  assumes "xs @ x # ys = xs' @ x' # ys'" and "length xs < length xs'"
  shows "x \<in> set xs' \<and> x' \<in> set ys"
proof -
  from assms(1) obtain us where
    "xs = xs' @ us \<and> us @ x # ys = x' # ys' \<or> xs @ us = xs' \<and> x # ys = us @ x' # ys'"
    by (auto simp: append_eq_append_conv2)
  with assms(2) have us: "xs @ us = xs'" "x # ys = us @ x' # ys'"
    by auto
  with assms(2) obtain us' where "us = x # us'"
    by (cases us) auto
  with us show ?thesis
    by auto
qed

lemma honors_unique: "honors T \<Longrightarrow> honors T' \<Longrightarrow> inorder T = inorder T' \<Longrightarrow> T = T'"
proof (induction T arbitrary: T')
  case (Leaf a)
  then show ?case
    using inorder_Node_not_single [of _ _ _ "Operand a"] by (cases T') (auto simp del: inorder.simps(2))
next
  case (Node opr l r)
  show ?case
  proof (cases T')
    case (Leaf a)
    with Node.prems(3) inorder_Node_not_single [of opr l r "Operand a"] show ?thesis
      by simp
  next
    case T': (Node opr' l' r')
    from Node.prems(3) have eq: "inorder l @ Operator opr # inorder r =
        inorder l' @ Operator opr' # inorder r'"
      by (simp add: T')
    have "\<not> length (inorder l) < length (inorder l')"
    proof
      assume "length (inorder l) < length (inorder l')"
      from split_before [OF eq this] have "opr \<in> set (operators l')" "opr' \<in> set (operators r)"
        by (simp_all add: operator_items)
      with Node.prems(1,2) have "prec_of opr' \<le> prec_of opr" "prec_of opr < prec_of opr'"
        by (simp_all add: T' list_all_iff)
      then show False
        by simp
    qed
    moreover have "\<not> length (inorder l') < length (inorder l)"
    proof
      assume "length (inorder l') < length (inorder l)"
      from split_before [OF eq [symmetric] this]
      have "opr' \<in> set (operators l)" "opr \<in> set (operators r')"
        by (simp_all add: operator_items)
      with Node.prems(1,2) have "prec_of opr \<le> prec_of opr'" "prec_of opr' < prec_of opr"
        by (simp_all add: T' list_all_iff)
      then show False
        by simp
    qed
    ultimately have "length (inorder l) = length (inorder l')"
      by simp
    with eq have "inorder l = inorder l'" "opr = opr'" "inorder r = inorder r'"
      by auto
    with Node.IH Node.prems(1,2) show ?thesis
      by (simp add: T')
  qed
qed


lemma prec_of_Some: "OP_PRECEDENCE opr = Some p \<Longrightarrow> prec_of opr = p"
  by (simp add: prec_of_def)

lemma climb_honors:
  assumes rest: "\<not> is_op [] rest"
  shows "parses m c rest \<Longrightarrow> m + length c + 1 \<le> n \<Longrightarrow> honors l \<Longrightarrow>
    (case c of [] \<Rightarrow> True | x # _ \<Rightarrow> list_all (\<lambda>q. prec_of (fst x) \<le> prec_of q) (operators l)) \<Longrightarrow>
    \<exists>c1 c2 T. c = c1 @ c2 \<and>
      maybe_binary n (build l) prec (sequence_tokens c @ rest) =
        Ok (build T, sequence_tokens c2 @ rest) \<and>
      inorder T = inorder l @ sequence_items c1 \<and>
      operators T = operators l @ map fst c1 \<and> honors T \<and>
      list_all (\<lambda>q. prec < prec_of q) (map fst c1) \<and>
      (case c2 of [] \<Rightarrow> True | x # _ \<Rightarrow> prec_of (fst x) \<le> prec)"
proof (induction n arbitrary: c l prec)
  case 0
  then show ?case by simp
next
  case (Suc n)
  show ?case
  proof (cases c)
    case Nil
    have "maybe_binary (Suc n) (build l) prec rest = Ok (build l, rest)"
      using rest by (simp add: maybe_binary_Suc)
    with Nil Suc.prems(3) show ?thesis
      by (intro exI [of _ "[]"] exI [of _ l]) simp
  next
    case (Cons x c')
    obtain opr ts a where x: "x = (opr, ts, a)"
      by (cases x)
    from Suc.prems(1) obtain p where p: "OP_PRECEDENCE opr = Some p"
      and atom: "parse_atom m (ts @ sequence_tokens c' @ rest) = Ok (a, sequence_tokens c' @ rest)"
      and c': "parses m c' rest"
      by (auto simp: Cons x)
    note pp = prec_of_Some [OF p]
    show ?thesis
    proof (cases "p > prec")
      case False
      with p have "maybe_binary (Suc n) (build l) prec (sequence_tokens c @ rest) =
          Ok (build l, sequence_tokens c @ rest)"
        by (simp add: Cons x maybe_binary_op)
      with False Suc.prems(3) show ?thesis
        by (intro exI [of _ "[]"] exI [of _ c] exI [of _ l]) (simp add: Cons x pp)
    next
      case True
      have fuel: "m \<le> n" "m + length c' + 1 \<le> n"
        using Suc.prems(2) by (simp_all add: Cons)
      have atom_n: "parse_atom n (ts @ sequence_tokens c' @ rest) = Ok (a, sequence_tokens c' @ rest)"
        using atom fuel(1) by (rule parse_atom_mono)
      have leaf: "case c' of [] \<Rightarrow> True
          | x # _ \<Rightarrow> list_all (\<lambda>q. prec_of (fst x) \<le> prec_of q) (operators (Leaf a))"
        by (simp split: list.splits)
      from Suc.IH [OF c' fuel(2) _ leaf, of p]
      obtain c1 c2 R where inner: "c' = c1 @ c2"
        "maybe_binary n a p (sequence_tokens c' @ rest) = Ok (build R, sequence_tokens c2 @ rest)"
        "inorder R = Operand a # sequence_items c1" "operators R = map fst c1" "honors R"
        "list_all (\<lambda>q. p < prec_of q) (map fst c1)"
        "case c2 of [] \<Rightarrow> True | x # _ \<Rightarrow> prec_of (fst x) \<le> p"
        by auto
      have c2: "parses m c2 rest"
        using c' inner(1) parses_append by blast
      have fuel2: "m + length c2 + 1 \<le> n"
        using fuel(2) inner(1) by simp
      have left: "list_all (\<lambda>q. p \<le> prec_of q) (operators l)"
        using Suc.prems(4) by (simp add: Cons x pp)
      have node: "honors (Node opr l R)"
        using left inner(4,5,6) Suc.prems(3) by (simp add: pp)
      have next_op: "case c2 of [] \<Rightarrow> True
          | x # _ \<Rightarrow> list_all (\<lambda>q. prec_of (fst x) \<le> prec_of q) (operators (Node opr l R))"
      proof (cases c2)
        case Nil
        then show ?thesis by simp
      next
        case (Cons y c2')
        with inner(7) have y: "prec_of (fst y) \<le> p"
          by simp
        have "list_all (\<lambda>q. prec_of (fst y) \<le> prec_of q) (operators l)"
          using left y by (auto simp: list_all_iff)
        moreover have "list_all (\<lambda>q. prec_of (fst y) \<le> prec_of q) (map fst c1)"
          using inner(6) y by (auto simp: list_all_iff)
        ultimately show ?thesis
          using y by (simp add: Cons inner(4) pp)
      qed
      from Suc.IH [OF c2 fuel2 node next_op, of prec]
      obtain d1 d2 T where outer: "c2 = d1 @ d2"
        "maybe_binary n (build (Node opr l R)) prec (sequence_tokens c2 @ rest) =
          Ok (build T, sequence_tokens d2 @ rest)"
        "inorder T = inorder (Node opr l R) @ sequence_items d1"
        "operators T = operators (Node opr l R) @ map fst d1" "honors T"
        "list_all (\<lambda>q. prec < prec_of q) (map fst d1)"
        "case d2 of [] \<Rightarrow> True | x # _ \<Rightarrow> prec_of (fst x) \<le> prec"
        by blast
      have run: "maybe_binary (Suc n) (build l) prec (sequence_tokens c @ rest) =
          Ok (build T, sequence_tokens d2 @ rest)"
        using p True atom_n inner(2) outer(2) by (simp add: Cons x maybe_binary_op)
      have above: "list_all (\<lambda>q. prec < prec_of q) (map fst c1)"
        using inner(6) True by (auto simp: list_all_iff)
      show ?thesis
        using run outer(3-7) inner(1,3,4) True above
        by (intro exI [of _ "x # c1 @ d1"] exI [of _ d2] exI [of _ T])
          (simp add: Cons x outer(1) pp)
    qed
  qed
qed


lemma stops_0_no_op: "stops 0 rest \<Longrightarrow> \<not> is_op [] rest"
  by (auto simp: stops_def split: option.splits dest: OP_PRECEDENCE_positive)

lemma parses_positive: "parses m c rest \<Longrightarrow> list_all (\<lambda>q. 0 < prec_of q) (map fst c)"
proof (induction c)
  case Nil
  then show ?case by simp
next
  case (Cons x c)
  obtain opr ts a where x: "x = (opr, ts, a)"
    by (cases x)
  from Cons.prems obtain p where "OP_PRECEDENCE opr = Some p" and c: "parses m c rest"
    by (auto simp: x)
  then have "0 < prec_of opr"
    using OP_PRECEDENCE_positive [of opr p] by (simp add: prec_of_def)
  with Cons.IH [OF c] show ?case
    by (simp add: x)
qed

lemma climb_all:
  assumes "stops 0 rest" and "parses m c rest" and "m + length c + 1 \<le> n"
  shows "\<exists>T. maybe_binary n a 0 (sequence_tokens c @ rest) = Ok (build T, rest) \<and>
    inorder T = Operand a # sequence_items c \<and> honors T"
proof -
  have leaf: "case c of [] \<Rightarrow> True
      | x # _ \<Rightarrow> list_all (\<lambda>q. prec_of (fst x) \<le> prec_of q) (operators (Leaf a))"
    by (simp split: list.splits)
  from climb_honors [OF stops_0_no_op [OF assms(1)] assms(2,3) _ leaf, of 0]
  obtain c1 c2 T where T: "c = c1 @ c2"
    "maybe_binary n a 0 (sequence_tokens c @ rest) = Ok (build T, sequence_tokens c2 @ rest)"
    "inorder T = Operand a # sequence_items c1" "honors T"
    "case c2 of [] \<Rightarrow> True | x # _ \<Rightarrow> prec_of (fst x) \<le> 0"
    by auto
  have "list_all (\<lambda>q. 0 < prec_of q) (map fst c2)"
    using parses_positive [OF assms(2)] by (simp add: T(1))
  with T(5) have "c2 = []"
    by (cases c2) auto
  with T show ?thesis
    by auto
qed

subsection \<open>What a parser leaves of its input\<close>































subsection \<open>A result means a consumed closing delimiter\<close>






subsection \<open>Enough budget gives a value or a diagnostic\<close>

lemma decided_simps [simp]:
  "decided (Ok x)" "decided (Err (Diagnostic msg))" "\<not> decided Fuel"
  "\<not> decided (Err out_of_range)" "\<not> decided (Err invalid_argument)"
  by (simp_all add: decided_def)



lemma settled_Err [simp]: "settled input (Err (Diagnostic msg))"
  by (simp add: settled_def)

lemma settled_Ok [simp]: "settled input (Ok (v, rest)) \<longleftrightarrow> length rest < length input"
  by (simp add: settled_def)






































lemma lexable_tok_punc [simp]: "lexable (tok_punc c)"
  by (simp add: lexable_def tok_defs)







section \<open>The claims\<close>

subsection \<open>Precedence climbing\<close>

text \<open>
  Claim C4. The precedence table is the fixed one (\<open>=\<close>:1, \<open>||\<close>:2, \<open>&&\<close>:3, the six
  comparisons:7, \<open>+\<close> and \<open>-\<close>:10, \<open>*\<close>, \<open>/\<close> and \<open>%\<close>:20) and it is honored for
  every expression: for a first operand and a sequence \<open>cs\<close> of any length of operators
  of the table, each followed by an operand of any form that \<^verbatim>\<open>parse_atom\<close> accepts
  (a literal, a parenthesised expression, a call, ...), \<^verbatim>\<open>parse_expr\<close> returns the AST
  of a tree \<open>T\<close> over exactly these operands and operators, in their order, that honors
  the table (a higher precedence binds tighter, operators of one precedence group from
  the left), and \<open>T\<close> is the only such tree. For three operands \<open>x f y g z\<close> this is:
  \<open>y g z\<close> is grouped first exactly when \<open>g\<close> has the higher precedence. In particular
  \<open>1+2*3\<close> parses to \<open>Binary + 1 (Binary * 2 3)\<close>, \<open>a = 1 || 2 && 3\<close> to
  \<open>Assign = a (Binary || 1 (Binary && 2 3))\<close>, and \<open>(1+2)*3-f(2)\<close> to
  \<open>Binary - (Binary * (Binary + 1 2) 3) (Call f [2])\<close>.
\<close>

theorem precedence_table_honored:
  "map OP_PRECEDENCE
       [''='', ''||'', ''&&'', ''<'', ''>'', ''<='', ''>='', ''=='', ''!='', ''+'', ''-'', ''*'',
        ''/'', ''%''] =
     map Some [1, 2, 3, 7, 7, 7, 7, 7, 7, 10, 10, 20, 20, 20] \<and>
   (parse_atom m (first @ sequence_tokens cs @ tail) = Ok (l, sequence_tokens cs @ tail) \<and>
    parses m cs tail \<and> stops 0 tail \<longrightarrow>
      (\<exists>T. parse_expr (m + length cs + 2 + j) (first @ sequence_tokens cs @ tail) =
             Ok (build T, tail) \<and>
           inorder T = Operand l # sequence_items cs \<and> honors T \<and>
           (\<forall>T'. inorder T' = Operand l # sequence_items cs \<and> honors T' \<longrightarrow> T' = T))) \<and>
   (operand x a \<and> operand y b \<and> operand z c \<and>
    OP_PRECEDENCE f = Some p \<and> OP_PRECEDENCE g = Some q \<and> stops 0 rest \<longrightarrow>
      parse_expr (8 + k) (x # tok_op f # y # tok_op g # z # rest) =
        Ok (if q > p then node f a (node g b c) else node g (node f a b) c, rest)) \<and>
   parse_toplevel (10 + k)
       [tok_num ''1'', tok_op ''+'', tok_num ''2'', tok_op ''*'', tok_num ''3''] =
     Ok [Some (Binary ''+'' (Some (Number 1))
                (Some (Binary ''*'' (Some (Number 2)) (Some (Number 3)))))] \<and>
   parse_toplevel (12 + k)
       [tok_var ''a'', tok_op ''='', tok_num ''1'', tok_op ''||'', tok_num ''2'', tok_op ''&&'',
        tok_num ''3''] =
     Ok [Some (Assign ''='' (Some (Identifier ''a''))
                (Some (Binary ''||'' (Some (Number 1))
                  (Some (Binary ''&&'' (Some (Number 2)) (Some (Number 3)))))))] \<and>
   parse_toplevel (12 + k)
       [tok_punc ''('', tok_num ''1'', tok_op ''+'', tok_num ''2'', tok_punc '')'', tok_op ''*'',
        tok_num ''3'', tok_op ''-'', tok_var ''f'', tok_punc ''('', tok_num ''2'', tok_punc '')''] =
     Ok [Some (Binary ''-''
                (Some (Binary ''*''
                  (Some (Binary ''+'' (Some (Number 1)) (Some (Number 2)))) (Some (Number 3))))
                (Some (Call (Some (Identifier ''f'')) [Some (Number 2)])))]"
proof (intro conjI impI; (elim conjE)?)
  show "map OP_PRECEDENCE
       [''='', ''||'', ''&&'', ''<'', ''>'', ''<='', ''>='', ''=='', ''!='', ''+'', ''-'', ''*'',
        ''/'', ''%''] =
     map Some [1, 2, 3, 7, 7, 7, 7, 7, 7, 10, 10, 20, 20, 20]"
    by (simp add: OP_PRECEDENCE_def)
next
  assume atom: "parse_atom m (first @ sequence_tokens cs @ tail) =
      Ok (l, sequence_tokens cs @ tail)"
    and cs: "parses m cs tail" and tail: "stops 0 tail"
  define n where "n = m + length cs + j"
  have fuel: "m + length cs + 2 + j = Suc (Suc n)" "m \<le> Suc n" "m + length cs + 1 \<le> Suc n"
    by (simp_all add: n_def)
  have atom_n: "parse_atom (Suc n) (first @ sequence_tokens cs @ tail) =
      Ok (l, sequence_tokens cs @ tail)"
    using atom fuel(2) by (rule parse_atom_mono)
  from climb_all [OF tail cs fuel(3), of l]
  obtain T where T: "maybe_binary (Suc n) l 0 (sequence_tokens cs @ tail) = Ok (build T, tail)"
    "inorder T = Operand l # sequence_items cs" "honors T"
    by blast
  have "parse_expr (Suc (Suc n)) (first @ sequence_tokens cs @ tail) = Ok (build T, tail)"
    using atom_n T(1) tail
    by (simp add: parse_expr_Suc maybe_call_Suc stops_no_call)
  moreover have "\<forall>T'. inorder T' = Operand l # sequence_items cs \<and> honors T' \<longrightarrow> T' = T"
    using T(2,3) honors_unique by auto
  ultimately show "\<exists>T. parse_expr (m + length cs + 2 + j) (first @ sequence_tokens cs @ tail) =
             Ok (build T, tail) \<and>
           inorder T = Operand l # sequence_items cs \<and> honors T \<and>
           (\<forall>T'. inorder T' = Operand l # sequence_items cs \<and> honors T' \<longrightarrow> T' = T)"
    using T(2,3) unfolding fuel(1) by blast
next
  assume t: "operand x a" "operand y b" "operand z c"
    and p: "OP_PRECEDENCE f = Some p" "OP_PRECEDENCE g = Some q"
    and rest: "stops 0 rest"
  have pos: "0 < p" "0 < q"
    using p by (auto dest: OP_PRECEDENCE_positive)
  have nc: "\<not> is_punc (CHR ''('') rest"
    using rest by (simp add: stops_def)
  show "parse_expr (8 + k) (x # tok_op f # y # tok_op g # z # rest) =
        Ok (if q > p then node f a (node g b c) else node g (node f a b) c, rest)"
  proof (cases "q > p")
    case True
    then show ?thesis
      using t p pos nc rest
      by (simp add: eval_nat_numeral parse_expr_Suc maybe_call_Suc parse_atom_operand
          maybe_binary_op maybe_binary_stops)
  next
    case False
    then show ?thesis
      using t p pos nc rest
      by (simp add: eval_nat_numeral parse_expr_Suc maybe_call_Suc parse_atom_operand
          maybe_binary_op maybe_binary_stops)
  qed
next
  show "parse_toplevel (10 + k)
       [tok_num ''1'', tok_op ''+'', tok_num ''2'', tok_op ''*'', tok_num ''3''] =
     Ok [Some (Binary ''+'' (Some (Number 1))
                (Some (Binary ''*'' (Some (Number 2)) (Some (Number 3)))))]"
    by (simp add: eval_simps)
next
  show "parse_toplevel (12 + k)
       [tok_var ''a'', tok_op ''='', tok_num ''1'', tok_op ''||'', tok_num ''2'', tok_op ''&&'',
        tok_num ''3''] =
     Ok [Some (Assign ''='' (Some (Identifier ''a''))
                (Some (Binary ''||'' (Some (Number 1))
                  (Some (Binary ''&&'' (Some (Number 2)) (Some (Number 3)))))))]"
    by (simp add: eval_simps)
next
  show "parse_toplevel (12 + k)
       [tok_punc ''('', tok_num ''1'', tok_op ''+'', tok_num ''2'', tok_punc '')'', tok_op ''*'',
        tok_num ''3'', tok_op ''-'', tok_var ''f'', tok_punc ''('', tok_num ''2'', tok_punc '')''] =
     Ok [Some (Binary ''-''
                (Some (Binary ''*''
                  (Some (Binary ''+'' (Some (Number 1)) (Some (Number 2)))) (Some (Number 3))))
                (Some (Call (Some (Identifier ''f'')) [Some (Number 2)])))]"
    by (simp add: eval_simps)
qed

theorem precedence_table_honored_witness:
  "parse_expr 8 [tok_num ''1'', tok_op ''+'', tok_num ''2'', tok_op ''*'', tok_num ''3''] =
     Ok (Some (Binary ''+'' (Some (Number 1)) (Some (Binary ''*'' (Some (Number 2)) (Some (Number 3))))),
         []) \<and>
   parse_expr 7
       [tok_var ''a'', tok_op ''='', tok_num ''1'', tok_op ''||'', tok_num ''2'', tok_op ''&&'',
        tok_num ''3''] =
     Ok (Some (Assign ''='' (Some (Identifier ''a''))
                (Some (Binary ''||'' (Some (Number 1))
                  (Some (Binary ''&&'' (Some (Number 2)) (Some (Number 3))))))), [])"
proof
  have "OP_PRECEDENCE ''+'' = Some 10" "OP_PRECEDENCE ''*'' = Some 20" "stops 0 []"
    by (simp_all add: OP_PRECEDENCE_def stops_def)
  then show "parse_expr 8 [tok_num ''1'', tok_op ''+'', tok_num ''2'', tok_op ''*'', tok_num ''3''] =
     Ok (Some (Binary ''+'' (Some (Number 1)) (Some (Binary ''*'' (Some (Number 2)) (Some (Number 3))))),
         [])"
    using precedence_table_honored [where x = "tok_num ''1''" and a = "Some (Number 1)"
        and y = "tok_num ''2''" and b = "Some (Number 2)" and z = "tok_num ''3''"
        and c = "Some (Number 3)" and f = "''+''" and p = 10 and g = "''*''" and q = 20
        and rest = "[]" and k = 0]
    by (simp add: node_def)
next
  let ?cs = "[(''='', [tok_num ''1''], Some (Number 1)), (''||'', [tok_num ''2''], Some (Number 2)),
      (''&&'', [tok_num ''3''], Some (Number 3))]"
  let ?T = "Node ''='' (Leaf (Some (Identifier ''a'')))
      (Node ''||'' (Leaf (Some (Number 1))) (Node ''&&'' (Leaf (Some (Number 2))) (Leaf (Some (Number 3)))))"
  have hyps: "parse_atom 2 ([tok_var ''a''] @ sequence_tokens ?cs @ []) =
      Ok (Some (Identifier ''a''), sequence_tokens ?cs @ []) \<and> parses 2 ?cs [] \<and> stops 0 []"
    by (simp add: eval_simps stops_def)
  have tree: "inorder ?T = Operand (Some (Identifier ''a'')) # sequence_items ?cs \<and> honors ?T"
    by (simp add: prec_of_def OP_PRECEDENCE_def)
  note general = precedence_table_honored [where m = 2 and first = "[tok_var ''a'']" and cs = ?cs
        and tail = "[]" and l = "Some (Identifier ''a'')" and j = 0, THEN conjunct2, THEN conjunct1]
  from general [rule_format, OF hyps]
  obtain T where T: "parse_expr (2 + length ?cs + 2 + 0) ([tok_var ''a''] @ sequence_tokens ?cs @ []) =
      Ok (build T, [])"
    and unique: "\<forall>T'. inorder T' = Operand (Some (Identifier ''a'')) # sequence_items ?cs \<and>
      honors T' \<longrightarrow> T' = T"
    by blast
  from unique tree have "?T = T"
    by blast
  with T have "parse_expr 7 ([tok_var ''a''] @ sequence_tokens ?cs @ []) = Ok (build ?T, [])"
    by simp
  then show "parse_expr 7
       [tok_var ''a'', tok_op ''='', tok_num ''1'', tok_op ''||'', tok_num ''2'', tok_op ''&&'',
        tok_num ''3''] =
     Ok (Some (Assign ''='' (Some (Identifier ''a''))
                (Some (Binary ''||'' (Some (Number 1))
                  (Some (Binary ''&&'' (Some (Number 2)) (Some (Number 3))))))), [])"
    by (simp add: node_def)
qed

text \<open>
  Claim C3. A chain of operators of one table precedence \<open>p\<close> above the floor, each
  followed by an operand, is absorbed from the left: the tree of \<open>left f a g b\<close> is
  \<open>node g (node f left a) b\<close>, and so on for a chain of any length. In particular
  \<open>1-2-3\<close> parses to \<open>Binary - (Binary - 1 2) 3\<close>.
\<close>

theorem equal_precedence_left_assoc:
  "((\<forall>(opr, t, a) \<in> set c. OP_PRECEDENCE opr = Some p \<and> operand t a) \<and> prec < p \<and>
    stops prec rest \<longrightarrow>
      maybe_binary (length c + 3 + k) left prec (chain_tokens c @ rest) =
        Ok (chain_tree left c, rest)) \<and>
   chain_tree left [(f, x, a), (g, y, b)] = node g (node f left a) b \<and>
   parse_toplevel (10 + k)
       [tok_num ''1'', tok_op ''-'', tok_num ''2'', tok_op ''-'', tok_num ''3''] =
     Ok [Some (Binary ''-'' (Some (Binary ''-'' (Some (Number 1)) (Some (Number 2))))
                (Some (Number 3)))]"
proof (intro conjI impI)
  assume "(\<forall>(opr, t, a) \<in> set c. OP_PRECEDENCE opr = Some p \<and> operand t a) \<and> prec < p \<and>
    stops prec rest"
  then show "maybe_binary (length c + 3 + k) left prec (chain_tokens c @ rest) =
        Ok (chain_tree left c, rest)"
    by (intro climb_chain) auto
next
  show "chain_tree left [(f, x, a), (g, y, b)] = node g (node f left a) b"
    by simp
next
  show "parse_toplevel (10 + k)
       [tok_num ''1'', tok_op ''-'', tok_num ''2'', tok_op ''-'', tok_num ''3''] =
     Ok [Some (Binary ''-'' (Some (Binary ''-'' (Some (Number 1)) (Some (Number 2))))
                (Some (Number 3)))]"
    by (simp add: eval_simps)
qed

theorem equal_precedence_left_assoc_witness:
  "maybe_binary 5 (Some (Number 1)) 0
       [tok_op ''-'', tok_num ''2'', tok_op ''+'', tok_num ''3''] =
     Ok (Some (Binary ''+'' (Some (Binary ''-'' (Some (Number 1)) (Some (Number 2))))
                (Some (Number 3))), [])"
proof -
  have "\<forall>(opr, t, a) \<in> set [(''-'', tok_num ''2'', Some (Number 2)),
      (''+'', tok_num ''3'', Some (Number 3))]. OP_PRECEDENCE opr = Some 10 \<and> operand t a"
    by (simp add: OP_PRECEDENCE_def)
  moreover have "stops 0 []"
    by (simp add: stops_def)
  ultimately show ?thesis
    using equal_precedence_left_assoc [of "[(''-'', tok_num ''2'', Some (Number 2)),
      (''+'', tok_num ''3'', Some (Number 3))]" 10 0 "[]" 0 "Some (Number 1)"]
    by (simp add: node_def)
qed

text \<open>
  Claim C1, as stated, fails: \<open>a=b=1\<close> does not parse to
  \<open>Assign = a (Assign = b 1)\<close>.
\<close>

theorem assignment_chain_counterexample:
  "parse_toplevel 10 [tok_var ''a'', tok_op ''='', tok_var ''b'', tok_op ''='', tok_num ''1''] \<noteq>
     Ok [Some (Assign ''='' (Some (Identifier ''a''))
                (Some (Assign ''='' (Some (Identifier ''b'')) (Some (Number 1)))))]"
  by (simp add: eval_simps)

text \<open>
  Claim C1, amended. A chain of assignments is built by the same left-first construction
  as a chain of any other operator of one precedence: the operands are absorbed into the
  left side one after the other. In particular \<open>a=b=1\<close> parses to
  \<open>Assign = (Assign = a b) 1\<close>.
\<close>

theorem assignment_chain_left_first:
  "((\<forall>(opr, t, a) \<in> set c. opr = ''='' \<and> operand t a) \<and> stops 0 rest \<longrightarrow>
      maybe_binary (length c + 3 + k) left 0 (chain_tokens c @ rest) =
        Ok (foldl (\<lambda>l (opr, t, a). Some (Assign ''='' l a)) left c, rest)) \<and>
   parse_toplevel (10 + k)
       [tok_var ''a'', tok_op ''='', tok_var ''b'', tok_op ''='', tok_num ''1''] =
     Ok [Some (Assign ''='' (Some (Assign ''='' (Some (Identifier ''a'')) (Some (Identifier ''b''))))
                (Some (Number 1)))]"
proof (intro conjI impI)
  assume a: "(\<forall>(opr, t, a) \<in> set c. opr = ''='' \<and> operand t a) \<and> stops 0 rest"
  have tree: "chain_tree l c = foldl (\<lambda>l (opr, t, a). Some (Assign ''='' l a)) l c"
    if "\<forall>(opr, t, a) \<in> set c. opr = ''=''" for l
    using that by (induction c arbitrary: l) (auto simp: node_def)
  have "OP_PRECEDENCE ''='' = Some 1"
    by (simp add: OP_PRECEDENCE_def)
  with a have "maybe_binary (length c + 3 + k) left 0 (chain_tokens c @ rest) =
      Ok (chain_tree left c, rest)"
    by (intro climb_chain [where p = 1]) auto
  with a show "maybe_binary (length c + 3 + k) left 0 (chain_tokens c @ rest) =
        Ok (foldl (\<lambda>l (opr, t, a). Some (Assign ''='' l a)) left c, rest)"
    by (simp add: tree case_prod_unfold)
next
  show "parse_toplevel (10 + k)
       [tok_var ''a'', tok_op ''='', tok_var ''b'', tok_op ''='', tok_num ''1''] =
     Ok [Some (Assign ''='' (Some (Assign ''='' (Some (Identifier ''a'')) (Some (Identifier ''b''))))
                (Some (Number 1)))]"
    by (simp add: eval_simps)
qed

theorem assignment_chain_left_first_witness:
  "maybe_binary 5 (Some (Identifier ''a'')) 0
       [tok_op ''='', tok_var ''b'', tok_op ''='', tok_num ''1''] =
     Ok (Some (Assign ''='' (Some (Assign ''='' (Some (Identifier ''a'')) (Some (Identifier ''b''))))
                (Some (Number 1))), [])"
proof -
  have "\<forall>(opr, t, a) \<in> set [(''='', tok_var ''b'', Some (Identifier ''b'')),
      (''='', tok_num ''1'', Some (Number 1))]. opr = ''='' \<and> operand t a"
    by simp
  moreover have "stops 0 []"
    by (simp add: stops_def)
  ultimately show ?thesis
    using assignment_chain_left_first [of "[(''='', tok_var ''b'', Some (Identifier ''b'')),
      (''='', tok_num ''1'', Some (Number 1))]" "[]" 0 "Some (Identifier ''a'')"]
    by simp
qed

subsection \<open>The lookup in the precedence table\<close>

text \<open>
  Claim C10. \<^verbatim>\<open>maybe_binary\<close> reads the precedence of the lookahead operator with
  \<^verbatim>\<open>OP_PRECEDENCE.at\<close>, with no guard. The table has exactly the 14 keys. For an
  operator token whose text is no key, the call ends in the exception
  \<^verbatim>\<open>std::out_of_range\<close>, which is no diagnostic of the lexer's error sink. For an
  operator token whose text is a key, the lookup yields its precedence and the climb goes
  on: it returns the left operand when the precedence does not exceed the floor, and
  parses the right operand otherwise. The input \<open>1 ** 2\<close>, with an operator token that
  the table does not have, ends in the exception.
\<close>

theorem unguarded_precedence_lookup:
  "dom OP_PRECEDENCE =
     {''='', ''||'', ''&&'', ''<'', ''>'', ''<='', ''>='', ''=='', ''!='', ''+'', ''-'', ''*'',
      ''/'', ''%''} \<and>
   (is_op [] input \<and> tvalue (lexer_peek input) \<notin> dom OP_PRECEDENCE \<longrightarrow>
      maybe_binary (Suc n) left prec input = Err out_of_range \<and>
      (\<forall>msg. maybe_binary (Suc n) left prec input \<noteq> Err (Diagnostic msg))) \<and>
   (is_op [] input \<and> tvalue (lexer_peek input) \<in> dom OP_PRECEDENCE \<longrightarrow>
      (\<exists>tokprec. OP_PRECEDENCE (tvalue (lexer_peek input)) = Some tokprec \<and>
         maybe_binary (Suc n) left prec input =
           (if tokprec > prec then
              and_then (parse_atom n (snd (lexer_next input))) (\<lambda>(atom, input').
              and_then (maybe_binary n atom tokprec input') (\<lambda>(right, input').
              maybe_binary n (node (tvalue (lexer_peek input)) left right) prec input'))
            else Ok (left, input)))) \<and>
   parse_toplevel (10 + k) [tok_num ''1'', tok_op ''**'', tok_num ''2''] = Err out_of_range"
proof (intro conjI impI)
  show "dom OP_PRECEDENCE =
     {''='', ''||'', ''&&'', ''<'', ''>'', ''<='', ''>='', ''=='', ''!='', ''+'', ''-'', ''*'',
      ''/'', ''%''}"
    by (rule dom_OP_PRECEDENCE)
next
  assume "is_op [] input \<and> tvalue (lexer_peek input) \<notin> dom OP_PRECEDENCE"
  then show "maybe_binary (Suc n) left prec input = Err out_of_range"
    by (simp add: maybe_binary_Suc map_at_def domIff)
  then show "\<forall>msg. maybe_binary (Suc n) left prec input \<noteq> Err (Diagnostic msg)"
    by simp
next
  assume op: "is_op [] input \<and> tvalue (lexer_peek input) \<in> dom OP_PRECEDENCE"
  then obtain q where q: "OP_PRECEDENCE (tvalue (lexer_peek input)) = Some q"
    by auto
  with op show "\<exists>tokprec. OP_PRECEDENCE (tvalue (lexer_peek input)) = Some tokprec \<and>
       maybe_binary (Suc n) left prec input =
         (if tokprec > prec then
            and_then (parse_atom n (snd (lexer_next input))) (\<lambda>(atom, input').
            and_then (maybe_binary n atom tokprec input') (\<lambda>(right, input').
            maybe_binary n (node (tvalue (lexer_peek input)) left right) prec input'))
          else Ok (left, input))"
    by (simp add: maybe_binary_Suc map_at_def)
next
  show "parse_toplevel (10 + k) [tok_num ''1'', tok_op ''**'', tok_num ''2''] = Err out_of_range"
    by (simp add: eval_simps)
qed

theorem unguarded_precedence_lookup_witness:
  "maybe_binary (Suc 0) (Some (Number 1)) 0 [tok_op ''**'', tok_num ''2''] = Err out_of_range \<and>
   maybe_binary (Suc 0) (Some (Number 1)) 10 [tok_op ''+'', tok_num ''2''] =
     Ok (Some (Number 1), [tok_op ''+'', tok_num ''2''])"
proof -
  have a: "is_op [] [tok_op ''**'', tok_num ''2'']"
    and b: "is_op [] [tok_op ''+'', tok_num ''2'']"
    by (simp_all add: lex_defs tok_defs)
  have c: "tvalue (lexer_peek [tok_op ''**'', tok_num ''2'']) \<notin> dom OP_PRECEDENCE"
    and d: "tvalue (lexer_peek [tok_op ''+'', tok_num ''2'']) \<in> dom OP_PRECEDENCE"
    by (simp_all add: lex_defs tok_defs dom_OP_PRECEDENCE)
  have e: "OP_PRECEDENCE (tvalue (lexer_peek [tok_op ''+'', tok_num ''2''])) = Some 10"
    by (simp add: lex_defs tok_defs OP_PRECEDENCE_def)
  from unguarded_precedence_lookup [where input = "[tok_op ''**'', tok_num ''2'']" and n = 0
      and left = "Some (Number 1)" and prec = 0]
    unguarded_precedence_lookup [where input = "[tok_op ''+'', tok_num ''2'']" and n = 0
      and left = "Some (Number 1)" and prec = 10]
    a b c d e
  show ?thesis by simp
qed

subsection \<open>The call wrapper\<close>

text \<open>
  Claim C2, as stated, fails: the call result of \<open>f()\<close> that is invoked again at once,
  \<open>f()()\<close>, is parsed, to \<open>Call (Call f []) []\<close>.
\<close>

theorem call_wrapper_counterexample:
  "parse_toplevel 9
       [tok_var ''f'', tok_punc ''('', tok_punc '')'', tok_punc ''('', tok_punc '')''] =
     Ok [Some (Call (Some (Call (Some (Identifier ''f'')) [])) [])]"
  by (simp add: eval_simps)

text \<open>
  Claim C2, amended. One call of \<^verbatim>\<open>maybe_call\<close> wraps the result of its argument
  into a \<open>Call\<close> node when the lookahead is \<open>(\<close>, once and not again. An atom is wrapped
  by \<^verbatim>\<open>parse_atom\<close> and the expression by \<^verbatim>\<open>parse_expr\<close>, so \<open>f()()\<close>
  parses to \<open>Call (Call f []) []\<close>; it is a third argument list, as in \<open>f()()()\<close>,
  that neither absorbs: it stays in the input, and at the top level the parse ends in the
  diagnostic that \<open>;\<close> is expected.
\<close>

theorem call_wrapper_once_per_site:
  "(call input = Ok (r, rest) \<longrightarrow>
      maybe_call (Suc (Suc n)) call input =
        (if is_punc (CHR ''('') rest
         then and_then (delimited n (CHR ''('') (CHR '')'') (CHR '','') (parse_expr n) rest)
                (\<lambda>(args, input). Ok (Some (Call r args), input))
         else Ok (r, rest))) \<and>
   parse_atom (5 + k)
       (tok_var f # tok_punc ''('' # tok_punc '')'' # tok_punc ''('' # tok_punc '')'' # rest') =
     Ok (Some (Call (Some (Identifier f)) []), tok_punc ''('' # tok_punc '')'' # rest') \<and>
   parse_expr (7 + k)
       (tok_var f # tok_punc ''('' # tok_punc '')'' # tok_punc ''('' # tok_punc '')'' #
        tok_punc ''('' # tok_punc '')'' # rest') =
     Ok (Some (Call (Some (Call (Some (Identifier f)) [])) []),
         tok_punc ''('' # tok_punc '')'' # rest') \<and>
   parse_toplevel (9 + k)
       [tok_var f, tok_punc ''('', tok_punc '')'', tok_punc ''('', tok_punc '')''] =
     Ok [Some (Call (Some (Call (Some (Identifier f)) [])) [])] \<and>
   parse_toplevel (9 + k)
       [tok_var f, tok_punc ''('', tok_punc '')'', tok_punc ''('', tok_punc '')'',
        tok_punc ''('', tok_punc '')''] =
     Err (Diagnostic (''Token '' @ [CHR 0x27] @ '';'' @ [CHR 0x27] @ '' expected''))"
proof (intro conjI impI)
  assume "call input = Ok (r, rest)"
  then show "maybe_call (Suc (Suc n)) call input =
        (if is_punc (CHR ''('') rest
         then and_then (delimited n (CHR ''('') (CHR '')'') (CHR '','') (parse_expr n) rest)
                (\<lambda>(args, input). Ok (Some (Call r args), input))
         else Ok (r, rest))"
    by (simp add: maybe_call_Suc parse_call_Suc)
qed (simp_all add: eval_simps)

theorem call_wrapper_once_per_site_witness:
  "maybe_call 3 parse_literal [tok_var ''f'', tok_punc ''('', tok_punc '')'', tok_punc ''('', tok_punc '')''] =
     Ok (Some (Call (Some (Identifier ''f'')) []), [tok_punc ''('', tok_punc '')''])"
proof -
  have "parse_literal [tok_var ''f'', tok_punc ''('', tok_punc '')'', tok_punc ''('', tok_punc '')'']
      = Ok (Some (Identifier ''f''), [tok_punc ''('', tok_punc '')'', tok_punc ''('', tok_punc '')''])"
    by (simp add: parse_literal_def)
  with call_wrapper_once_per_site [of parse_literal
      "[tok_var ''f'', tok_punc ''('', tok_punc '')'', tok_punc ''('', tok_punc '')'']"
      "Some (Identifier ''f'')" "[tok_punc ''('', tok_punc '')'', tok_punc ''('', tok_punc '')'']" 1]
  show ?thesis
    by (simp add: eval_simps)
qed

subsection \<open>Blocks\<close>

text \<open>
  Claim C6. \<^verbatim>\<open>parse_prog\<close> yields no node (a null pointer) for the empty brace pair
  and \<open>Program\<close> of the expressions otherwise: its result is present exactly when the
  delimited list has at least one expression. \<open>{}\<close> gives the absent block, and
  \<open>{1;2;3}\<close> gives \<open>Program [1, 2, 3]\<close>.
\<close>

theorem empty_block_is_absent:
  "(parse_prog (Suc n) input = Ok (r, rest) \<longrightarrow>
      (\<exists>vars. delimited n (CHR ''{'') (CHR ''}'') (CHR '';'') (parse_expr n) input = Ok (vars, rest) \<and>
         (r = None \<longleftrightarrow> vars = []) \<and> (r \<noteq> None \<longleftrightarrow> r = Some (Program vars)))) \<and>
   parse_prog (2 + k) (tok_punc ''{'' # tok_punc ''}'' # rest') = Ok (None, rest') \<and>
   parse_prog (10 + k)
       [tok_punc ''{'', tok_num ''1'', tok_punc '';'', tok_num ''2'', tok_punc '';'', tok_num ''3'',
        tok_punc ''}''] =
     Ok (Some (Program [Some (Number 1), Some (Number 2), Some (Number 3)]), []) \<and>
   parse_toplevel (5 + k) [tok_punc ''{'', tok_punc ''}''] = Ok [None] \<and>
   parse_toplevel (12 + k)
       [tok_punc ''{'', tok_num ''1'', tok_punc '';'', tok_num ''2'', tok_punc '';'', tok_num ''3'',
        tok_punc ''}''] =
     Ok [Some (Program [Some (Number 1), Some (Number 2), Some (Number 3)])]"
proof (intro conjI impI)
  assume "parse_prog (Suc n) input = Ok (r, rest)"
  then show "\<exists>vars. delimited n (CHR ''{'') (CHR ''}'') (CHR '';'') (parse_expr n) input = Ok (vars, rest) \<and>
         (r = None \<longleftrightarrow> vars = []) \<and> (r \<noteq> None \<longleftrightarrow> r = Some (Program vars))"
    by (auto simp: parse_prog_Suc and_then_Ok_iff split: if_splits)
qed (simp_all add: eval_simps)

theorem empty_block_is_absent_witness:
  "delimited 1 (CHR ''{'') (CHR ''}'') (CHR '';'') (parse_expr 1) [tok_punc ''{'', tok_punc ''}''] =
     Ok ([], [])"
proof -
  have "parse_prog 2 [tok_punc ''{'', tok_punc ''}''] = Ok (None, [])"
    by (simp add: eval_simps)
  with empty_block_is_absent [of 1 "[tok_punc ''{'', tok_punc ''}'']" None "[]"]
  show ?thesis
    by (auto simp: eval_nat_numeral)
qed

subsection \<open>Function names\<close>




subsection \<open>Delimited lists\<close>

text \<open>
  Claim C5. In the loop of \<^verbatim>\<open>delimited\<close>, whatever the item parser, once an item
  has been parsed (\<^verbatim>\<open>first\<close> is false) a separator directly before the closing
  delimiter ends the loop with the list as it is, exactly as the closing delimiter alone
  does; the closing delimiter is then consumed. A parenthesised list of any number of
  operands gives the same items with and without the trailing comma. So \<open>f(1,2,)\<close>
  parses to \<open>Call f [1, 2]\<close> as \<open>f(1,2)\<close> does, and the same holds for a block and for
  the parameters of an extern declaration.
\<close>

theorem trailing_separator_tolerated:
  "(is_punc separator (s # e # rest) \<and> \<not> is_punc end (s # e # rest) \<and> is_punc end (e # rest) \<longrightarrow>
      delimited_loop (Suc n) end separator parser False list (s # e # rest) = Ok (list, e # rest) \<and>
      delimited_loop (Suc n) end separator parser False list (e # rest) = Ok (list, e # rest)) \<and>
   (operand t a \<and> (\<forall>(t, a) \<in> set its. operand t a) \<longrightarrow>
      delimited (length its + 2 + k) (CHR ''('') (CHR '')'') (CHR '','') (parse_expr (3 + j))
          (tok_punc ''('' # t # items_tokens its @ tok_punc '','' # tok_punc '')'' # rest) =
        Ok (a # map snd its, rest) \<and>
      delimited (length its + 2 + k) (CHR ''('') (CHR '')'') (CHR '','') (parse_expr (3 + j))
          (tok_punc ''('' # t # items_tokens its @ tok_punc '')'' # rest) =
        Ok (a # map snd its, rest)) \<and>
   parse_toplevel (10 + k)
       [tok_var ''f'', tok_punc ''('', tok_num ''1'', tok_punc '','', tok_num ''2'', tok_punc '','',
        tok_punc '')''] =
     Ok [Some (Call (Some (Identifier ''f'')) [Some (Number 1), Some (Number 2)])] \<and>
   parse_toplevel (10 + k)
       [tok_var ''f'', tok_punc ''('', tok_num ''1'', tok_punc '','', tok_num ''2'', tok_punc '')''] =
     Ok [Some (Call (Some (Identifier ''f'')) [Some (Number 1), Some (Number 2)])] \<and>
   parse_toplevel (10 + k)
       [tok_punc ''{'', tok_num ''1'', tok_punc '';'', tok_num ''2'', tok_punc '';'', tok_punc ''}''] =
     Ok [Some (Program [Some (Number 1), Some (Number 2)])] \<and>
   parse_toplevel (10 + k)
       [tok_punc ''{'', tok_num ''1'', tok_punc '';'', tok_num ''2'', tok_punc ''}''] =
     Ok [Some (Program [Some (Number 1), Some (Number 2)])] \<and>
   parse_toplevel (10 + k)
       [tok_kw ''ext'', tok_var ''f'', tok_punc ''('', tok_var ''int'', tok_var ''x'', tok_punc '','',
        tok_punc '')''] =
     Ok [Some (Function ''f'' [Parameter ''int'' ''x''] None)] \<and>
   parse_toplevel (10 + k)
       [tok_kw ''ext'', tok_var ''f'', tok_punc ''('', tok_var ''int'', tok_var ''x'', tok_punc '')''] =
     Ok [Some (Function ''f'' [Parameter ''int'' ''x''] None)]"
proof (intro conjI impI)
  assume a: "is_punc separator (s # e # rest) \<and> \<not> is_punc end (s # e # rest) \<and> is_punc end (e # rest)"
  then show "delimited_loop (Suc n) end separator parser False list (s # e # rest) = Ok (list, e # rest)"
    by simp
  from a show "delimited_loop (Suc n) end separator parser False list (e # rest) = Ok (list, e # rest)"
    by simp
next
  assume b: "operand t a \<and> (\<forall>(t, a) \<in> set its. operand t a)"
  then show "delimited (length its + 2 + k) (CHR ''('') (CHR '')'') (CHR '','') (parse_expr (3 + j))
          (tok_punc ''('' # t # items_tokens its @ tok_punc '','' # tok_punc '')'' # rest) =
        Ok (a # map snd its, rest)"
    using items_list [OF _ _ stops_close(2) loop_at_close(2), where t = t and a = a and its = its
        and k = k and j = j] by simp
  from b show "delimited (length its + 2 + k) (CHR ''('') (CHR '')'') (CHR '','') (parse_expr (3 + j))
          (tok_punc ''('' # t # items_tokens its @ tok_punc '')'' # rest) =
        Ok (a # map snd its, rest)"
    using items_list [OF _ _ stops_close(1) loop_at_close(1), where t = t and a = a and its = its
        and k = k and j = j] by simp
qed (simp_all add: eval_simps)

theorem trailing_separator_tolerated_witness:
  "delimited_loop 1 (CHR '')'') (CHR '','') (parse_expr 0) False [Some (Number 1)]
       [tok_punc '','', tok_punc '')''] =
     Ok ([Some (Number 1)], [tok_punc '')'']) \<and>
   delimited 3 (CHR ''('') (CHR '')'') (CHR '','') (parse_expr 3)
       [tok_punc ''('', tok_num ''1'', tok_punc '','', tok_num ''2'', tok_punc '','', tok_punc '')''] =
     Ok ([Some (Number 1), Some (Number 2)], [])"
proof -
  have "is_punc (CHR '','') [tok_punc '','', tok_punc '')''] \<and>
      \<not> is_punc (CHR '')'') [tok_punc '','', tok_punc '')''] \<and> is_punc (CHR '')'') [tok_punc '')'']"
    by (simp add: first_char_def)
  moreover have "operand (tok_num ''1'') (Some (Number 1)) \<and>
      (\<forall>(t, a) \<in> set [(tok_num ''2'', Some (Number 2))]. operand t a)"
    by simp
  ultimately show ?thesis
    using trailing_separator_tolerated [where separator = "CHR '',''" and s = "tok_punc '',''"
        and e = "tok_punc '')''" and rest = "[]" and ?end = "CHR '')''" and n = 0
        and parser = "parse_expr 0" and list = "[Some (Number 1)]" and t = "tok_num ''1''"
        and a = "Some (Number 1)" and its = "[(tok_num ''2'', Some (Number 2))]" and k = 0 and j = 0]
    by (simp add: eval_nat_numeral)
qed




subsection \<open>Fully formed nodes\<close>

text \<open>
  Claim C7, as stated, fails: \<open>{}+1\<close> parses without a diagnostic, to a \<open>Binary\<close> node
  whose left operand is null.
\<close>

theorem mandatory_children_counterexample:
  "parse_toplevel 10 [tok_punc ''{'', tok_punc ''}'', tok_op ''+'', tok_num ''1''] =
     Ok [Some (Binary ''+'' None (Some (Number 1)))] \<and>
   \<not> fully_formed (Binary ''+'' None (Some (Number 1)))"
  by (simp add: eval_simps)

text \<open>
  Claim C7, amended. For every input that has no empty brace pair and parses without a
  diagnostic, every expression of the tree is there and fully formed: no \<open>Binary\<close> or
  \<open>Assign\<close> node lacks an operand, no \<open>Call\<close> node its callee, no \<open>If\<close> node its
  condition or its then-branch.
\<close>

theorem mandatory_children_present:
  "no_empty_block input \<and> parse_toplevel n input = Ok ast \<longrightarrow> list_all present ast"
  using parse_toplevel_loop_present [of input "[]" n ast] by (simp add: parse_toplevel_def)

theorem mandatory_children_present_witness:
  "list_all present
     [Some (If (Some (Boolean True))
              (Some (Call (Some (Identifier ''f'')) [Some (Number 1)]))
              (Some (Program [Some (Number 2)])))] \<and>
   parse_toplevel 12
       [tok_kw ''cls'', tok_punc ''{'', tok_var ''x'', tok_op ''+'', tok_num ''1'', tok_punc ''}'',
        tok_punc ''('', tok_var ''x'', tok_punc '')''] =
     Ok [Some (Closure [''x'']
           (Some (Program [Some (Binary ''+'' (Some (Identifier ''x'')) (Some (Number 1)))])))] \<and>
   list_all present
     [Some (Closure [''x'']
        (Some (Program [Some (Binary ''+'' (Some (Identifier ''x'')) (Some (Number 1)))])))]"
proof (intro conjI)
  let ?input = "[tok_kw ''if'', tok_kw ''true'', tok_var ''f'', tok_punc ''('', tok_num ''1'',
    tok_punc '')'', tok_kw ''else'', tok_punc ''{'', tok_num ''2'', tok_punc ''}'']"
  have "no_empty_block ?input"
    by (simp add: lex_defs tok_defs)
  moreover have "parse_toplevel 12 ?input =
      Ok [Some (If (Some (Boolean True))
              (Some (Call (Some (Identifier ''f'')) [Some (Number 1)]))
              (Some (Program [Some (Number 2)])))]"
    by (simp add: eval_simps)
  ultimately show "list_all present
     [Some (If (Some (Boolean True))
              (Some (Call (Some (Identifier ''f'')) [Some (Number 1)]))
              (Some (Program [Some (Number 2)])))]"
    using mandatory_children_present [of ?input 12 "[Some (If (Some (Boolean True))
              (Some (Call (Some (Identifier ''f'')) [Some (Number 1)]))
              (Some (Program [Some (Number 2)])))]"] by simp
next
  let ?input = "[tok_kw ''cls'', tok_punc ''{'', tok_var ''x'', tok_op ''+'', tok_num ''1'',
    tok_punc ''}'', tok_punc ''('', tok_var ''x'', tok_punc '')'']"
  let ?ast = "[Some (Closure [''x'']
    (Some (Program [Some (Binary ''+'' (Some (Identifier ''x'')) (Some (Number 1)))])))]"
  show run: "parse_toplevel 12 ?input = Ok ?ast"
    by (simp add: eval_simps)
  have "no_empty_block ?input"
    by (simp add: lex_defs tok_defs)
  with run show "list_all present ?ast"
    using mandatory_children_present [of ?input 12 ?ast] by simp
qed

end
